theory Spec2Isabelle
  imports Main
begin


section \<open>Python values, exceptions and the environment\<close>

text \<open>
  The agent is Python 2. Every exception the modelled code can raise is a value of
  \<open>exn\<close>; a function that can raise returns a sum with \<open>Inl\<close> the exception. A function
  that changes the disk or sends requests returns, with the exception, the state it was
  raised in.
\<close>

datatype exn =
    TypeError | ValueError | KeyError | AttributeError
  | OSError | IOError | RequestException | SystemExit | Other string

text \<open>
  A path is the list of its components, so \<open>os.path.join p name\<close> is \<open>p @ [name]\<close>.
  The file system is an association list from paths to nodes; a file carries its size in
  bytes. The order of the list is the order in which \<open>os.listdir\<close> enumerates.
\<close>

type_synonym path = "string list"

datatype node = Dir | File nat

type_synonym fs = "(path \<times> node) list"

text \<open>
  What the code cannot decide by itself is asked of the environment: whether a path can
  be deleted (a file held open by a browser cannot, on some platforms), whether a file
  can be opened for reading, and whether the transport delivers a request.
\<close>

record request =
  req_url :: string
  req_file :: "(string \<times> path) option"
  req_timeout :: "nat option"

record env =
  can_delete :: "path \<Rightarrow> bool"
  can_open :: "path \<Rightarrow> bool"
  transport_ok :: "request \<Rightarrow> bool"

definition isdir :: "fs \<Rightarrow> path \<Rightarrow> bool" where
  "isdir f p = (map_of f p = Some Dir)"

definition isfile :: "fs \<Rightarrow> path \<Rightarrow> bool" where
  "isfile f p = (case map_of f p of Some (File n) \<Rightarrow> True | _ \<Rightarrow> False)"

definition getsize :: "fs \<Rightarrow> path \<Rightarrow> nat" where
  "getsize f p = (case map_of f p of Some (File n) \<Rightarrow> n | _ \<Rightarrow> 0)"

definition path_under :: "path \<Rightarrow> path \<Rightarrow> bool" where
  "path_under p q = (take (length p) q = p)"

definition listdir :: "fs \<Rightarrow> path \<Rightarrow> string list" where
  "listdir f p = remdups (map (\<lambda>(q, n). last q)
     (filter (\<lambda>(q, n). q \<noteq> [] \<and> butlast q = p) f))"

text \<open>
  \<open>shutil.rmtree\<close> walks the tree depth first: for every name the directory lists it
  removes the subtree or the file, then the directory itself. \<open>walk\<close> is the order of
  these removals. The first removal that fails raises \<open>OSError\<close>; what was removed before
  stays removed, the rest of the tree is left.
\<close>

function walk :: "fs \<Rightarrow> path \<Rightarrow> path list" where
  "walk f p =
     concat (map (\<lambda>name. if isdir f (p @ [name]) then walk f (p @ [name]) else [p @ [name]])
               (listdir f p)) @ [p]"
  by pat_completeness auto
termination
proof (relation "measure (\<lambda>(f, p). length (filter (\<lambda>(q, n). path_under p q \<and> q \<noteq> p) f))", goal_cases)
  case 1
  show ?case by simp
next
  case (2 f p name)
  let ?c = "p @ [name]"
  from 2(1) obtain q n where q: "(q, n) \<in> set f" "q \<noteq> []" "butlast q = p" "last q = name"
    by (auto simp: listdir_def)
  then have qc: "q = ?c" by (metis append_butlast_last_id)
  have sub: "filter (\<lambda>(r, n). path_under ?c r \<and> r \<noteq> ?c) f
      = filter (\<lambda>(r, n). path_under ?c r \<and> r \<noteq> ?c) (filter (\<lambda>(r, n). path_under p r \<and> r \<noteq> p) f)"
    by (auto simp: path_under_def intro!: filter_cong)
       (metis append_eq_conv_conj append_take_drop_id take_append take_take length_take)+
  have mem: "(?c, n) \<in> set (filter (\<lambda>(r, n). path_under p r \<and> r \<noteq> p) f)"
    using q qc by (auto simp: path_under_def)
  have "length (filter (\<lambda>(r, n). path_under ?c r \<and> r \<noteq> ?c) (filter (\<lambda>(r, n). path_under p r \<and> r \<noteq> p) f))
      < length (filter (\<lambda>(r, n). path_under p r \<and> r \<noteq> p) f)"
    by (rule length_filter_less [OF mem]) simp
  with sub show ?case by simp
qed

declare walk.simps [simp del]

fun delete_along :: "env \<Rightarrow> fs \<Rightarrow> path list \<Rightarrow> (exn \<times> fs) + fs" where
  "delete_along e f [] = Inr f"
| "delete_along e f (q # qs) =
     (if can_delete e q then delete_along e (filter (\<lambda>(r, n). r \<noteq> q) f) qs
      else Inl (OSError, f))"

definition rmtree :: "env \<Rightarrow> fs \<Rightarrow> path \<Rightarrow> (exn \<times> fs) + fs" where
  "rmtree e f p = delete_along e f (walk f p)"

definition remove_file :: "env \<Rightarrow> fs \<Rightarrow> path \<Rightarrow> exn + fs" where
  \<comment> \<open>\<open>os.remove\<close>\<close>
  "remove_file e f p =
     (if isfile f p \<and> can_delete e p
      then Inr (filter (\<lambda>(q, n). q \<noteq> p) f)
      else Inl OSError)"

definition ancestors :: "path \<Rightarrow> path list" where
  "ancestors p = map (\<lambda>k. take k p) [1..<length p]"

definition makedirs :: "fs \<Rightarrow> path \<Rightarrow> exn + fs" where
  \<comment> \<open>\<open>os.makedirs\<close>: raises when the leaf exists or an ancestor is a file.\<close>
  "makedirs f p =
     (if map_of f p \<noteq> None \<or> list_ex (isfile f) (ancestors p) then Inl OSError
      else Inr (f @ map (\<lambda>q. (q, Dir))
                  (filter (\<lambda>q. map_of f q = None) (ancestors p @ [p]))))"

subsection \<open>Decimal rendering of integers\<close>

function str_nat :: "nat \<Rightarrow> string" where
  "str_nat n = (if n < 10 then [''0123456789'' ! n]
                else str_nat (n div 10) @ [''0123456789'' ! (n mod 10)])"
  by pat_completeness auto
termination
  by (relation "measure (\<lambda>n. n)") auto

definition str_int :: "int \<Rightarrow> string" where
  "str_int i = (if i < 0 then CHR ''-'' # str_nat (nat (- i)) else str_nat (nat i))"

text \<open>
  \<open>urllib.quote_plus\<close> of Python 2 on a byte string: letters, digits and \<open>_.-\<close> stay, a
  space becomes \<open>+\<close>, every other byte becomes \<open>%XX\<close> in upper-case hexadecimal. Applied
  to \<open>None\<close> it raises \<open>TypeError\<close>.
\<close>

definition always_safe :: "char \<Rightarrow> bool" where
  "always_safe c = (c \<in> set (''ABCDEFGHIJKLMNOPQRSTUVWXYZ'' @ ''abcdefghijklmnopqrstuvwxyz'' @ ''0123456789'' @ ''_.-''))"

definition quote_char :: "char \<Rightarrow> string" where
  "quote_char c =
     (if always_safe c then [c]
      else if c = CHR '' '' then ''+''
      else [CHR ''%'', ''0123456789ABCDEF'' ! (of_char c div 16),
            ''0123456789ABCDEF'' ! (of_char c mod 16)])"

definition quote_plus :: "string \<Rightarrow> string" where
  "quote_plus s = concat (map quote_char s)"

definition quote_plus_value :: "string option \<Rightarrow> exn + string" where
  "quote_plus_value v = (case v of None \<Rightarrow> Inl TypeError | Some s \<Rightarrow> Inr (quote_plus s))"

section \<open>Jobs, tasks and the agent's server controller\<close>

text \<open>
  A job is the dictionary decoded from the server's JSON. A key that may be missing is
  an optional field (\<open>None\<close>: the key is not in the dictionary). \<open>j_current_state\<close> is
  the progress cursor \<open>get_task\<close> stores in the job under \<open>current_state\<close>. The source
  never looks inside the value of \<open>script\<close>; it is typed as the command list a task
  executes.
\<close>

record command =
  c_command :: string
  c_target :: string
  c_record :: bool

record state =
  s_run :: int
  s_repeat_view :: bool
  s_done :: bool

record job =
  j_test_id :: "string option"
  j_browser :: "string option"
  j_runs :: "int option"
  j_fvonly :: "bool option"
  j_iq :: "int option"
  j_pngss :: "int option"
  j_script :: "command list option"
  j_url :: "string option"
  j_current_state :: "state option"

text \<open>
  A task is the dictionary built by \<open>get_task\<close>. \<open>t_cached\<close> is the integer 1 or 0 the
  source stores; \<open>t_script\<close> and \<open>t_error\<close> are keys that may be missing.
\<close>

record task =
  t_id :: string
  t_run :: int
  t_cached :: int
  t_done :: bool
  t_profile :: path
  t_time_limit :: int
  t_width :: int
  t_height :: int
  t_port :: int
  t_prefix :: string
  t_dir :: path
  t_script :: "command list option"
  t_error :: "string option"

record options =
  o_server :: string
  o_location :: string
  o_key :: "string option"
  o_name :: "string option"

record wpt =
  w_url :: string
  w_location :: string
  w_key :: "string option"
  w_pc_name :: string
  w_workdir :: path
  w_profile_dir :: path

definition DEFAULT_JPEG_QUALITY :: int where
  "DEFAULT_JPEG_QUALITY = 30"

definition WebPageTest_init ::
  "string \<Rightarrow> env \<Rightarrow> options \<Rightarrow> path \<Rightarrow> fs \<Rightarrow> (exn \<times> fs) + (wpt \<times> fs)" where
  \<comment> \<open>\<open>__init__\<close>; the first argument is \<open>platform.uname()[1]\<close>.\<close>
  "WebPageTest_init host e opts workdir f =
     (let pc_name = (case o_name opts of None \<Rightarrow> host | Some n \<Rightarrow> n);
          wd = workdir @ [pc_name];
          self = \<lparr>w_url = o_server opts, w_location = o_location opts, w_key = o_key opts,
                  w_pc_name = pc_name, w_workdir = wd, w_profile_dir = wd @ [''browser'']\<rparr>
      in if isdir f wd
         then (case rmtree e f wd of Inl x \<Rightarrow> Inl x | Inr f' \<Rightarrow> Inr (self, f'))
         else Inr (self, f))"

definition rmtree_quiet :: "env \<Rightarrow> fs \<Rightarrow> path \<Rightarrow> fs" where
  \<comment> \<open>\<open>try: shutil.rmtree(p)\<close> / \<open>except BaseException: pass\<close>\<close>
  "rmtree_quiet e f p = (case rmtree e f p of Inl (x, f') \<Rightarrow> f' | Inr f' \<Rightarrow> f')"

definition fvonly_set :: "job \<Rightarrow> bool" where
  \<comment> \<open>\<open>'fvonly' in job and job['fvonly']\<close>\<close>
  "fvonly_set j = (case j_fvonly j of None \<Rightarrow> False | Some b \<Rightarrow> b)"

definition append_name :: "path \<Rightarrow> string \<Rightarrow> path" where
  \<comment> \<open>string formatting that extends the text of a path extends its last component\<close>
  "append_name p s = (if p = [] then [s] else butlast p @ [last p @ s])"

definition build_script :: "job \<Rightarrow> task \<Rightarrow> task" where
  "build_script j t =
     (if j_script j \<noteq> None then t
      else (case j_url j of
              None \<Rightarrow> t
            | Some u \<Rightarrow> t\<lparr>t_script := Some [\<lparr>c_command = ''navigate'', c_target = u,
                                             c_record = True\<rparr>]\<rparr>))"

definition next_state :: "job \<Rightarrow> state" where
  \<comment> \<open>lines 61 to 68 of \<open>get_task\<close>: the cursor after this call\<close>
  "next_state j =
     (case j_current_state j of
        None \<Rightarrow> \<lparr>s_run = 1, s_repeat_view = False, s_done = False\<rparr>
      | Some s \<Rightarrow>
          if \<not> s_repeat_view s \<and> \<not> fvonly_set j then s\<lparr>s_repeat_view := True\<rparr>
          else s\<lparr>s_run := s_run s + 1, s_repeat_view := False\<rparr>)"

definition no_task :: "wpt \<Rightarrow> env \<Rightarrow> job \<Rightarrow> fs \<Rightarrow> (exn \<times> fs) + (task option \<times> job \<times> fs)" where
  \<comment> \<open>lines 101 to 106: no task was built, the agent's work directory is removed\<close>
  "no_task self e j f =
     Inr (None, j, if isdir f (w_workdir self) then rmtree_quiet e f (w_workdir self) else f)"

definition new_task :: "wpt \<Rightarrow> string \<Rightarrow> state \<Rightarrow> task" where
  \<comment> \<open>lines 70 to 87: the task dictionary before the directories are made\<close>
  "new_task self test_id st =
     (let run = s_run st;
          cached = (if s_repeat_view st then 1 else 0 :: int)
      in \<lparr>t_id = test_id, t_run = run, t_cached = cached, t_done = False,
          t_profile = append_name (w_profile_dir self) (''.'' @ test_id @ ''.'' @ str_int run),
          t_time_limit = 120, t_width = 1024, t_height = 768, t_port = 9222,
          t_prefix = str_int run @ ''_'' @ (if cached \<noteq> 0 then ''Cached_'' else []),
          t_dir = w_workdir self @ [test_id @ ''.'' @ str_int run @ ''.'' @ str_int cached],
          t_script = None, t_error = None\<rparr>)"

definition get_task :: "wpt \<Rightarrow> env \<Rightarrow> job \<Rightarrow> fs \<Rightarrow> (exn \<times> fs) + (task option \<times> job \<times> fs)" where
  "get_task self e j f =
     (if (case j_current_state j of None \<Rightarrow> True | Some s \<Rightarrow> \<not> s_done s) then
        (let st = next_state j; j1 = j\<lparr>j_current_state := Some st\<rparr> in
         case j_runs j1 of
           None \<Rightarrow> Inl (KeyError, f)
         | Some runs \<Rightarrow>
             if s_run st \<le> runs then
               (case j_test_id j1 of
                  None \<Rightarrow> Inl (KeyError, f)
                | Some test_id \<Rightarrow>
                   (let t = new_task self test_id st in
                    case (if isdir f (t_dir t) then rmtree e f (t_dir t) else Inr f) of
                      Inl x \<Rightarrow> Inl x
                    | Inr f1 \<Rightarrow>
                       (case makedirs f1 (t_dir t) of
                          Inl x \<Rightarrow> Inl (x, f1)
                        | Inr f2 \<Rightarrow>
                           (case (if \<not> isdir f2 (t_profile t) then makedirs f2 (t_profile t)
                                  else Inr f2) of
                              Inl x \<Rightarrow> Inl (x, f2)
                            | Inr f3 \<Rightarrow>
                               (let fin = (s_run st = runs \<and> (s_repeat_view st \<or> fvonly_set j1));
                                    j2 = (if fin then j1\<lparr>j_current_state := Some (st\<lparr>s_done := True\<rparr>)\<rparr>
                                          else j1);
                                    t2 = (if fin then t\<lparr>t_done := True\<rparr> else t)
                                in Inr (Some (build_script j2 t2), j2, f3))))))
             else no_task self e j1 f)
      else no_task self e j f)"

section \<open>Polling the server for a job\<close>

text \<open>
  What \<open>requests.get\<close> gives: a \<open>RequestException\<close> (timeout, connection error), or a
  response with its text and with what \<open>response.json()\<close> makes of it: a \<open>ValueError\<close>
  when the text is not JSON, a value that is no container (\<open>null\<close>, a number, a truth
  value), or an object, the job dictionary. JSON arrays and strings are left out.
\<close>

datatype json_body = Malformed | NotAContainer | Object job

datatype http_result = RequestFailed | Response string json_body

definition getwork_url :: "wpt \<Rightarrow> string" where
  "getwork_url self =
     (let url = w_url self @ ''getwork.php?f=json'' @ ''&location='' @ quote_plus (w_location self)
                @ ''&pc='' @ quote_plus (w_pc_name self)
      in case w_key self of None \<Rightarrow> url | Some k \<Rightarrow> url @ ''&key='' @ k)"

definition get_test :: "wpt \<Rightarrow> (string \<Rightarrow> http_result) \<Rightarrow> exn + job option" where
  \<comment> \<open>the \<open>except\<close> clause catches \<open>RequestException\<close> only; \<open>'iq' not in job\<close> raises
      \<open>TypeError\<close> on a value that is no container\<close>
  "get_test self http_get =
     (case http_get (getwork_url self) of
        RequestFailed \<Rightarrow> Inr None
      | Response text body \<Rightarrow>
          if length text \<noteq> 0 then
            (case body of
               Malformed \<Rightarrow> Inl ValueError
             | NotAContainer \<Rightarrow> Inl TypeError
             | Object job \<Rightarrow>
                 (let job1 = (if j_iq job = None then job\<lparr>j_iq := Some DEFAULT_JPEG_QUALITY\<rparr> else job);
                      job2 = (if j_pngss job1 = None then job1\<lparr>j_pngss := Some 0\<rparr> else job1)
                  in if j_test_id job2 = None \<or> j_browser job2 = None \<or> j_runs job2 = None
                     then Inr None else Inr (Some job2)))
          else Inr None)"

section \<open>Uploading the result of a task\<close>

text \<open>
  The world the upload acts on: the disk, the calls made to \<open>requests.post\<close> in order
  (whether or not the transport delivered them), and the members written to each zip
  archive, by the path of the archive.
\<close>

record world =
  disk :: fs
  posts :: "request list"
  archives :: "(path \<times> string list) list"

fun build_query :: "string \<Rightarrow> (string \<times> string option) list \<Rightarrow> exn + string" where
  "build_query url [] = Inr url"
| "build_query url ((k, v) # rest) =
     (case quote_plus_value v of
        Inl x \<Rightarrow> Inl x
      | Inr q \<Rightarrow> build_query (url @ k @ ''='' @ q @ ''&'') rest)"

definition post_data ::
  "env \<Rightarrow> string \<Rightarrow> (string \<times> string option) list \<Rightarrow> path option \<Rightarrow> string \<Rightarrow> world
     \<Rightarrow> (exn \<times> world) + (bool \<times> world)" where
  \<comment> \<open>the query string is built before the \<open>try\<close>; inside it, \<open>open\<close> raises \<open>IOError\<close>
      and \<open>requests.post\<close> raises \<open>RequestException\<close>, and both handlers return \<open>False\<close>\<close>
  "post_data e url data file_path filename w =
     (case build_query (url @ ''?'') data of
        Inl x \<Rightarrow> Inl (x, w)
      | Inr u \<Rightarrow>
          (case (case file_path of
                   None \<Rightarrow> None
                 | Some p \<Rightarrow> if isfile (disk w) p then Some p else None) of
             Some p \<Rightarrow>
               if can_open e p then
                 (let r = \<lparr>req_url = u, req_file = Some (filename, p), req_timeout = Some 300\<rparr>
                  in Inr (transport_ok e r, w\<lparr>posts := posts w @ [r]\<rparr>))
               else Inr (False, w)
           | None \<Rightarrow>
               (let r = \<lparr>req_url = u, req_file = None, req_timeout = None\<rparr>
                in Inr (transport_ok e r, w\<lparr>posts := posts w @ [r]\<rparr>))))"

fun upload_video ::
  "env \<Rightarrow> string \<Rightarrow> (string \<times> string option) list \<Rightarrow> string \<Rightarrow> path \<Rightarrow> string list \<Rightarrow> world
     \<Rightarrow> (exn \<times> world) + world" where
  "upload_video e url data pre video_dir [] w = Inr w"
| "upload_video e url data pre video_dir (filename # rest) w =
     (let filepath = video_dir @ [filename] in
      if isfile (disk w) filepath then
        (case post_data e (url @ ''resultimage.php'') data (Some filepath) (pre @ filename) w of
           Inl x \<Rightarrow> Inl x
         | Inr (ok, w') \<Rightarrow> upload_video e url data pre video_dir rest w')
      else upload_video e url data pre video_dir rest w)"

fun upload_large ::
  "env \<Rightarrow> string \<Rightarrow> (string \<times> string option) list \<Rightarrow> path \<Rightarrow> string list \<Rightarrow> path list \<Rightarrow> world
     \<Rightarrow> (exn \<times> world) + (path list \<times> world)" where
  "upload_large e url data dir [] needs_zip w = Inr (needs_zip, w)"
| "upload_large e url data dir (filename # rest) needs_zip w =
     (let filepath = dir @ [filename] in
      if isfile (disk w) filepath then
        (if getsize (disk w) filepath > 100000 then
           (case post_data e (url @ ''resultimage.php'') data (Some filepath) filename w of
              Inl x \<Rightarrow> Inl x
            | Inr (ok, w') \<Rightarrow>
                if ok then
                  (case remove_file e (disk w') filepath of
                     Inl x \<Rightarrow> Inl (x, w')
                   | Inr f \<Rightarrow> upload_large e url data dir rest needs_zip (w'\<lparr>disk := f\<rparr>))
                else upload_large e url data dir rest (needs_zip @ [filepath]) w')
         else upload_large e url data dir rest (needs_zip @ [filepath]) w)
      else upload_large e url data dir rest needs_zip w)"

definition create_zip :: "path \<Rightarrow> world \<Rightarrow> (exn \<times> world) + world" where
  \<comment> \<open>\<open>zipfile.ZipFile(zip_path, 'w', ...)\<close>: a new, empty archive replaces any file there\<close>
  "create_zip zip_path w =
     (if isdir (disk w) zip_path then Inl (IOError, w)
      else Inr (w\<lparr>disk := filter (\<lambda>(q, n). q \<noteq> zip_path) (disk w) @ [(zip_path, File 0)],
                  archives := (zip_path, []) # filter (\<lambda>(q, ms). q \<noteq> zip_path) (archives w)\<rparr>))"

definition add_member :: "path \<Rightarrow> string \<Rightarrow> (path \<times> string list) list \<Rightarrow> (path \<times> string list) list" where
  "add_member zip_path name as = map (\<lambda>(q, ms). if q = zip_path then (q, ms @ [name]) else (q, ms)) as"

fun zip_write :: "env \<Rightarrow> path \<Rightarrow> path list \<Rightarrow> world \<Rightarrow> (exn \<times> world) + world" where
  "zip_write e zip_path [] w = Inr w"
| "zip_write e zip_path (filepath # rest) w =
     (if isfile (disk w) filepath then
        (let w1 = w\<lparr>archives := add_member zip_path (last filepath) (archives w)\<rparr> in
         case remove_file e (disk w1) filepath of
           Inl x \<Rightarrow> Inl (x, w1)
         | Inr f \<Rightarrow> zip_write e zip_path rest (w1\<lparr>disk := f\<rparr>))
      else Inl (OSError, w))"

definition task_data :: "wpt \<Rightarrow> task \<Rightarrow> (string \<times> string option) list" where
  \<comment> \<open>lines 119 to 123: the \<open>data\<close> dictionary, in the order the source lists its keys\<close>
  "task_data self t =
     [(''id'', Some (t_id t)), (''location'', Some (w_location self)), (''key'', w_key self),
      (''run'', Some (str_int (t_run t))), (''cached'', Some (str_int (t_cached t)))]"

definition package_files ::
  "wpt \<Rightarrow> env \<Rightarrow> task \<Rightarrow> world \<Rightarrow> (exn \<times> world) + (path option \<times> world)" where
  \<comment> \<open>lines 126 to 155: the uploads of single files and the archive; returns \<open>zip_path\<close>\<close>
  "package_files self e t w =
     (if isdir (disk w) (t_dir t) then
        (let video_dir = t_dir t @ [''video''] in
         case (if isdir (disk w) video_dir
               then upload_video e (w_url self) (task_data self t) (t_prefix t) video_dir
                      (listdir (disk w) video_dir) w
               else Inr w) of
           Inl x \<Rightarrow> Inl x
         | Inr w1 \<Rightarrow>
            (case upload_large e (w_url self) (task_data self t) (t_dir t)
                    (listdir (disk w1) (t_dir t)) [] w1 of
               Inl x \<Rightarrow> Inl x
             | Inr (needs_zip, w2) \<Rightarrow>
                 if needs_zip \<noteq> [] then
                   (let zip_path = t_dir t @ [''result.zip''] in
                    case create_zip zip_path w2 of
                      Inl x \<Rightarrow> Inl x
                    | Inr w3 \<Rightarrow>
                       (case zip_write e zip_path needs_zip w3 of
                          Inl x \<Rightarrow> Inl x
                        | Inr w4 \<Rightarrow> Inr (Some zip_path, w4)))
                 else Inr (None, w2)))
      else Inr (None, w))"

definition cleanup :: "wpt \<Rightarrow> env \<Rightarrow> task \<Rightarrow> fs \<Rightarrow> fs" where
  \<comment> \<open>lines 161 to 171\<close>
  "cleanup self e t f =
     (let f1 = (if isdir f (t_dir t) then rmtree_quiet e f (t_dir t) else f)
      in if t_done t \<and> isdir f1 (w_workdir self) then rmtree_quiet e f1 (w_workdir self) else f1)"

definition upload_task_result :: "wpt \<Rightarrow> env \<Rightarrow> task \<Rightarrow> world \<Rightarrow> (exn \<times> world) + world" where
  "upload_task_result self e t w =
     (case package_files self e t w of
        Inl x \<Rightarrow> Inl x
      | Inr (zip_path, w5) \<Rightarrow>
         (let data = (if t_done t then task_data self t @ [(''done'', Some ''1'')]
                      else task_data self t)
          in case post_data e (w_url self @ ''workdone.php'') data zip_path ''result.zip'' w5 of
               Inl x \<Rightarrow> Inl x
             | Inr (ok, w6) \<Rightarrow> Inr (w6\<lparr>disk := cleanup self e t (disk w6)\<rparr>)))"

section \<open>The control loop\<close>

text \<open>
  The browsers and the DevTools connection are driven by code outside the two modelled
  files; what they do is given by the environment. A browser is its three operations on the
  world. For DevTools the environment says whether \<open>connect\<close> succeeds and what the
  time-bounded loop of \<open>run_test\<close> over the task's script makes of the task and the world.
\<close>

record browser =
  b_prepare :: "task \<Rightarrow> world \<Rightarrow> (exn \<times> world) + world"
  b_launch :: "task \<Rightarrow> world \<Rightarrow> (exn \<times> world) + world"
  b_stop :: "world \<Rightarrow> (exn \<times> world) + world"

record devtools =
  dt_connect :: bool
  dt_run_script :: "job \<Rightarrow> task \<Rightarrow> command list \<Rightarrow> world \<Rightarrow> (exn \<times> world) + (task \<times> world)"

text \<open>
  One pass of the outer loop meets one \<open>round\<close> of the environment: the disk and
  transport behaviour, the number of interrupts (Ctrl+C) that arrive as the pass begins,
  whether a browser is ready, the server's answer to the poll, the browser registry and the
  DevTools behaviour.
\<close>

record round =
  r_env :: env
  r_sigint :: nat
  r_is_ready :: bool
  r_http :: "string \<Rightarrow> http_result"
  r_get_browser :: "string \<Rightarrow> browser option"
  r_devtools :: devtools

text \<open>
  The agent: the two fields of \<open>WPTAgent\<close> the loop reads and writes, the world, and three
  records of what happened: the tasks handed to \<open>upload_task_result\<close>, the exceptions the
  loop caught and logged, and the number of polling sleeps.
\<close>

record agent =
  must_exit :: bool
  current_test :: "job option"
  a_world :: world
  upload_calls :: "task list"
  caught :: "exn list"
  sleeps :: nat

definition signal_handler :: "agent \<Rightarrow> (exn \<times> agent) + agent" where
  \<comment> \<open>a second Ctrl+C calls \<open>exit(1)\<close>, which raises \<open>SystemExit\<close> where the main thread is\<close>
  "signal_handler a = (if must_exit a then Inl (SystemExit, a) else Inr (a\<lparr>must_exit := True\<rparr>))"

fun deliver :: "nat \<Rightarrow> agent \<Rightarrow> (exn \<times> agent) + agent" where
  "deliver 0 a = Inr a"
| "deliver (Suc n) a = (case signal_handler a of Inl x \<Rightarrow> Inl x | Inr a' \<Rightarrow> deliver n a')"

definition run_test :: "devtools \<Rightarrow> job \<Rightarrow> task \<Rightarrow> world \<Rightarrow> (exn \<times> world) + (task \<times> world)" where
  \<comment> \<open>connected: \<open>len(task['script'])\<close> raises \<open>KeyError\<close> on a task without script, else the
      loop runs; not connected: the error is stored and \<open>task.error\<close> raises \<open>AttributeError\<close>\<close>
  "run_test dt job t w =
     (if dt_connect dt then
        (case t_script t of
           None \<Rightarrow> Inl (KeyError, w)
         | Some cmds \<Rightarrow> dt_run_script dt job t cmds w)
      else Inl (AttributeError, w))"

definition run_task :: "wpt \<Rightarrow> round \<Rightarrow> job \<Rightarrow> task \<Rightarrow> agent \<Rightarrow> (exn \<times> agent) + agent" where
  \<comment> \<open>lines 42 to 53 of \<open>run_testing\<close>: one pass of the inner loop up to the upload\<close>
  "run_task self r job t a =
     (case j_browser job of
        None \<Rightarrow> Inl (KeyError, a)
      | Some name \<Rightarrow>
         (case (case r_get_browser r name of
                  Some b \<Rightarrow>
                    (case b_prepare b t (a_world a) of
                       Inl x \<Rightarrow> Inl x
                     | Inr w1 \<Rightarrow>
                        (case b_launch b t w1 of
                           Inl x \<Rightarrow> Inl x
                         | Inr w2 \<Rightarrow>
                            (case run_test (r_devtools r) job t w2 of
                               Inl x \<Rightarrow> Inl x
                             | Inr (t', w3) \<Rightarrow>
                                (case b_stop b w3 of
                                   Inl x \<Rightarrow> Inl x
                                 | Inr w4 \<Rightarrow> Inr (t', w4)))))
                | None \<Rightarrow> Inr (t\<lparr>t_error := Some (''Invalid browser - '' @ name)\<rparr>, a_world a)) of
            Inl (x, w) \<Rightarrow> Inl (x, a\<lparr>a_world := w\<rparr>)
          | Inr (t1, w1) \<Rightarrow>
             (case upload_task_result self (r_env r) t1 w1 of
                Inl (x, w2) \<Rightarrow> Inl (x, a\<lparr>a_world := w2, upload_calls := upload_calls a @ [t1]\<rparr>)
              | Inr w2 \<Rightarrow> Inr (a\<lparr>a_world := w2, upload_calls := upload_calls a @ [t1]\<rparr>))))"

definition set_disk :: "fs \<Rightarrow> agent \<Rightarrow> agent" where
  "set_disk f a = a\<lparr>a_world := (a_world a)\<lparr>disk := f\<rparr>\<rparr>"

partial_function (option) task_loop ::
  "wpt \<Rightarrow> round \<Rightarrow> job \<Rightarrow> task \<Rightarrow> agent \<Rightarrow> ((exn \<times> agent) + agent) option" where
  "task_loop self r job t a =
     (case run_task self r job t a of
        Inl x \<Rightarrow> Some (Inl x)
      | Inr a1 \<Rightarrow>
         (case get_task self (r_env r) job (disk (a_world a1)) of
            Inl (x, f) \<Rightarrow> Some (Inl (x, set_disk f a1))
          | Inr (None, job', f') \<Rightarrow> Some (Inr (set_disk f' (a1\<lparr>current_test := Some job'\<rparr>)))
          | Inr (Some t', job', f') \<Rightarrow>
              task_loop self r job' t' (set_disk f' (a1\<lparr>current_test := Some job'\<rparr>))))"

definition iteration_body :: "wpt \<Rightarrow> round \<Rightarrow> agent \<Rightarrow> ((exn \<times> agent) + agent) option" where
  \<comment> \<open>lines 36 to 58, the body of the \<open>try\<close>\<close>
  "iteration_body self r a =
     (case deliver (r_sigint r) a of
        Inl x \<Rightarrow> Some (Inl x)
      | Inr a0 \<Rightarrow>
         (case (if r_is_ready r then
                  (case get_test self (r_http r) of
                     Inl x \<Rightarrow> Some (Inl (x, a0))
                   | Inr None \<Rightarrow> Some (Inr (a0\<lparr>current_test := None\<rparr>))
                   | Inr (Some job) \<Rightarrow>
                       (case get_task self (r_env r) job (disk (a_world a0)) of
                          Inl (x, f) \<Rightarrow> Some (Inl (x, set_disk f (a0\<lparr>current_test := Some job\<rparr>)))
                        | Inr (None, job', f') \<Rightarrow>
                            Some (Inr (set_disk f' (a0\<lparr>current_test := Some job'\<rparr>)))
                        | Inr (Some t, job', f') \<Rightarrow>
                            task_loop self r job' t (set_disk f' (a0\<lparr>current_test := Some job'\<rparr>))))
                else Some (Inr a0)) of
            None \<Rightarrow> None
          | Some (Inl x) \<Rightarrow> Some (Inl x)
          | Some (Inr a1) \<Rightarrow>
              Some (Inr (if current_test a1 \<noteq> None then a1\<lparr>current_test := None\<rparr>
                         else a1\<lparr>sleeps := sleeps a1 + 1\<rparr>))))"

definition iteration :: "wpt \<Rightarrow> round \<Rightarrow> agent \<Rightarrow> agent option" where
  \<comment> \<open>the \<open>try\<close> with its \<open>except BaseException\<close>, which logs and goes on\<close>
  "iteration self r a =
     (case iteration_body self r a of
        None \<Rightarrow> None
      | Some (Inl (x, a')) \<Rightarrow> Some (a'\<lparr>caught := caught a' @ [x]\<rparr>)
      | Some (Inr a') \<Rightarrow> Some a')"

text \<open>
  The outer loop runs as long as the environment has rounds for it. It has \<open>Exited\<close> when
  it found \<open>must_exit\<close> set; it is still \<open>Running\<close> when the rounds are used up; it is
  \<open>Hung\<close> when a pass never ends.
\<close>

datatype outcome = Exited agent | Running agent | Hung

fun run_testing :: "wpt \<Rightarrow> agent \<Rightarrow> round list \<Rightarrow> outcome" where
  "run_testing self a [] = (if must_exit a then Exited a else Running a)"
| "run_testing self a (r # rs) =
     (if must_exit a then Exited a
      else (case iteration self r a of
              None \<Rightarrow> Hung
            | Some a' \<Rightarrow> run_testing self a' rs))"

section \<open>Successive task requests\<close>

text \<open>
  The control loop asks for the tasks of one job one after the other; between two
  requests the browser and the upload change the disk. \<open>get_tasks\<close> makes one request
  per element of its list, each on the environment and disk given there, and returns for
  every request the task (or none) with the job as the request left it. An exception ends
  the sequence, as it ends the job in the control loop.
\<close>

fun get_tasks :: "wpt \<Rightarrow> job \<Rightarrow> (env \<times> fs) list \<Rightarrow> (exn \<times> fs) + (task option \<times> job) list" where
  "get_tasks self j [] = Inr []"
| "get_tasks self j (w # ws) =
     (case get_task self (fst w) j (snd w) of
        Inl x \<Rightarrow> Inl x
      | Inr (t, j', f') \<Rightarrow>
          (case get_tasks self j' ws of
             Inl x \<Rightarrow> Inl x
           | Inr rs \<Rightarrow> Inr ((t, j') # rs)))"

definition view :: "task \<Rightarrow> int \<times> int \<times> bool" where
  "view t = (t_run t, t_cached t, t_done t)"

definition spec_task_sequence :: "bool \<Rightarrow> nat \<Rightarrow> (int \<times> int \<times> bool) list" where
  \<comment> \<open>the sequence the specification announces for \<open>runs = N\<close>: run, cached (1 or 0), done\<close>
  "spec_task_sequence fv N =
     (if fv then map (\<lambda>r. (int r, 0, r = N)) [1..<Suc N]
      else concat (map (\<lambda>r. [(int r, 0, False), (int r, 1, r = N)]) [1..<Suc N]))"

definition disk_ok :: "wpt \<Rightarrow> env \<Rightarrow> fs \<Rightarrow> bool" where
  \<comment> \<open>every entry can be deleted, and plain files lie strictly below the level of the task
      and profile directories\<close>
  "disk_ok self e f =
     list_all (\<lambda>(q, n). can_delete e q \<and>
        (n = Dir \<or> max (Suc (length (w_workdir self))) (length (w_profile_dir self)) < length q)) f"

definition runs_seen :: "job list \<Rightarrow> int list" where
  "runs_seen js = concat (map (\<lambda>j. case j_current_state j of None \<Rightarrow> [] | Some s \<Rightarrow> [s_run s]) js)"

definition job_done :: "job \<Rightarrow> bool" where
  "job_done j = (case j_current_state j of None \<Rightarrow> False | Some s \<Rightarrow> s_done s)"

section \<open>Auxiliary notions for the proofs\<close>

definition shallow :: "nat \<Rightarrow> fs \<Rightarrow> bool" where
  "shallow k f = list_all (\<lambda>(q, n). n = Dir \<or> k < length q) f"

definition n_tasks :: "bool \<Rightarrow> nat \<Rightarrow> nat" where
  "n_tasks fv N = (if fv then N else 2 * N)"

definition entry :: "bool \<Rightarrow> nat \<Rightarrow> nat \<Rightarrow> int \<times> int \<times> bool" where
  "entry fv N k = (if fv then (int (Suc k), 0, Suc k = N)
                   else (int (Suc (k div 2)), (if even k then 0 else 1), Suc k = 2 * N))"

definition state_at :: "bool \<Rightarrow> nat \<Rightarrow> nat \<Rightarrow> state option" where
  "state_at fv N k = (if k = 0 then None
     else Some \<lparr>s_run = (if fv then int k else int (Suc ((k - 1) div 2))),
                s_repeat_view = (\<not> fv \<and> even k), s_done = (k = n_tasks fv N)\<rparr>)"

definition exhausted :: "job \<Rightarrow> bool" where
  "exhausted j = (job_done j \<or> (case j_runs j of None \<Rightarrow> False | Some n \<Rightarrow> n < s_run (next_state j)))"

definition agent_of :: "(exn \<times> agent) + agent \<Rightarrow> agent" where
  "agent_of res = (case res of Inl (x, a) \<Rightarrow> a | Inr a \<Rightarrow> a)"

text \<open>
  A bound on the tasks a job still has to give; it decreases with every task.
\<close>

definition tasks_left :: "job \<Rightarrow> nat" where
  "tasks_left j =
     (case j_runs j of
        None \<Rightarrow> 0
      | Some n \<Rightarrow>
          (case j_current_state j of
             None \<Rightarrow> 2 * nat n + 2
           | Some s \<Rightarrow> 2 * nat (n - s_run s) + (if s_repeat_view s then 0 else 1)))"

text \<open>
  What the loop over the large files has done between two worlds: the requests it added are
  uploads of listed files above the threshold, the paths it added to \<open>needs_zip\<close> include
  every listed file at or below the threshold, a listed file above it is in \<open>needs_zip\<close> or
  gone from the disk, and no path has appeared on the disk.
\<close>

definition large_inv :: "path \<Rightarrow> string list \<Rightarrow> path list \<Rightarrow> world \<Rightarrow> path list \<Rightarrow> world \<Rightarrow> bool" where
  "large_inv dir names nz w nz' w' =
     (\<exists>ps zs. posts w' = posts w @ ps \<and> nz' = nz @ zs \<and>
        (\<forall>r\<in>set ps. \<exists>name\<in>set names. req_file r = Some (name, dir @ [name]) \<and>
              isfile (disk w) (dir @ [name]) \<and> 100000 < getsize (disk w) (dir @ [name])) \<and>
        (\<forall>name\<in>set names. isfile (disk w) (dir @ [name]) \<longrightarrow>
              (if 100000 < getsize (disk w) (dir @ [name])
               then dir @ [name] \<in> set zs \<or> \<not> isfile (disk w') (dir @ [name])
               else dir @ [name] \<in> set zs)) \<and>
        (\<forall>q. map_of (disk w) q = None \<longrightarrow> map_of (disk w') q = None))"

text \<open>
  A list of paths the archive loop gets through: no path twice, every one a plain file that
  the file system lets go.
\<close>

definition batch_ok :: "env \<Rightarrow> fs \<Rightarrow> path list \<Rightarrow> bool" where
  "batch_ok e f ps = (distinct ps \<and> list_all (\<lambda>p. isfile f p \<and> can_delete e p) ps)"

section \<open>Example inputs\<close>

text \<open>
  The job of the specification's scenario (\<open>T1\<close>, two runs, one url), an agent with an access
  key, and small worlds for the evaluations below.
\<close>

definition example_wpt :: wpt where
  "example_wpt = \<lparr>w_url = ''http://server/work/'', w_location = ''Test'', w_key = Some ''secret'',
     w_pc_name = ''agent'', w_workdir = [''work'', ''agent''],
     w_profile_dir = [''work'', ''agent'', ''browser'']\<rparr>"

definition example_env :: env where
  "example_env = \<lparr>can_delete = (\<lambda>p. True), can_open = (\<lambda>p. True), transport_ok = (\<lambda>r. True)\<rparr>"

definition example_job :: job where
  "example_job = \<lparr>j_test_id = Some ''T1'', j_browser = Some ''Chrome'', j_runs = Some 2,
     j_fvonly = None, j_iq = Some 30, j_pngss = Some 0, j_script = None,
     j_url = Some ''http://x'', j_current_state = None\<rparr>"


definition finished_job :: job where
  "finished_job = example_job\<lparr>j_current_state := Some \<lparr>s_run = 2, s_repeat_view = True, s_done = True\<rparr>\<rparr>"

definition example_task :: task where
  "example_task = new_task example_wpt ''T1'' \<lparr>s_run = 1, s_repeat_view = False, s_done = False\<rparr>"

definition example_disk :: fs where
  "example_disk =
     [([''work''], Dir), ([''work'', ''agent''], Dir), ([''work'', ''agent'', ''T1.1.0''], Dir),
      ([''work'', ''agent'', ''T1.1.0'', ''a''], File 100001),
      ([''work'', ''agent'', ''T1.1.0'', ''b''], File 100000)]"

definition example_world :: world where
  "example_world = \<lparr>disk = example_disk, posts = [], archives = []\<rparr>"

definition locked_env :: env where
  "locked_env = example_env\<lparr>can_delete := (\<lambda>p. p \<noteq> [''work'', ''agent'', ''T1.1.0'', ''video'', ''f.jpg''])\<rparr>"

definition video_world :: world where
  "video_world = \<lparr>disk = [([''work''], Dir), ([''work'', ''agent''], Dir), ([''work'', ''agent'', ''T1.1.0''], Dir),
      ([''work'', ''agent'', ''T1.1.0'', ''video''], Dir),
      ([''work'', ''agent'', ''T1.1.0'', ''video'', ''f.jpg''], File 10)], posts = [], archives = []\<rparr>"

definition example_agent :: agent where
  "example_agent = \<lparr>must_exit = False, current_test = None,
     a_world = \<lparr>disk = [], posts = [], archives = []\<rparr>, upload_calls = [], caught = [], sleeps = 0\<rparr>"

definition example_round :: round where
  "example_round = \<lparr>r_env = example_env, r_sigint = 0, r_is_ready = True,
     r_http = (\<lambda>u. Response ''null'' NotAContainer), r_get_browser = (\<lambda>n. None),
     r_devtools = \<lparr>dt_connect = False, dt_run_script = (\<lambda>j t c w. Inr (t, w))\<rparr>\<rparr>"

section \<open>Properties\<close>

lemma map_of_shallow:
  assumes "shallow k f" "length p \<le> k"
  shows "map_of f p = None \<or> map_of f p = Some Dir"
proof (cases "map_of f p")
  case None then show ?thesis by simp
next
  case (Some n)
  then have "(p, n) \<in> set f" by (rule map_of_SomeD)
  with assms have "n = Dir" by (auto simp: list_all_iff shallow_def)
  with Some show ?thesis by simp
qed

lemma shallow_not_isfile: "shallow k f \<Longrightarrow> length p \<le> k \<Longrightarrow> \<not> isfile f p"
  using map_of_shallow [of k f p] by (auto simp: isfile_def)

lemma shallow_not_isdir: "shallow k f \<Longrightarrow> length p \<le> k \<Longrightarrow> \<not> isdir f p \<Longrightarrow> map_of f p = None"
  using map_of_shallow [of k f p] by (auto simp: isdir_def)

lemma map_of_filter_notin:
  "map_of (filter (\<lambda>(r, n). r \<notin> S) f) q = (if q \<in> S then None else map_of f q)"
  by (induction f) auto

lemma filter_filter_notin:
  "filter (\<lambda>(r, n). r \<notin> S) (filter (\<lambda>(r, n). r \<noteq> q) f) = filter (\<lambda>(r, n). r \<notin> insert q S) f"
  by (induction f) auto

lemma filter_notin_Cons:
  "filter (\<lambda>(r, n). r \<notin> set (q # qs)) f = filter (\<lambda>(r, n). r \<notin> set qs) (filter (\<lambda>(r, n). r \<noteq> q) f)"
  by (induction f) auto

lemma delete_along_ok:
  "\<forall>q\<in>set qs. can_delete e q \<Longrightarrow> delete_along e f qs = Inr (filter (\<lambda>(r, n). r \<notin> set qs) f)"
proof (induction qs arbitrary: f)
  case Nil
  show ?case by (simp add: case_prod_unfold)
next
  case (Cons q qs)
  from Cons.prems have "delete_along e f (q # qs) = delete_along e (filter (\<lambda>(r, n). r \<noteq> q) f) qs"
    by simp
  also from Cons.prems have "\<dots> = Inr (filter (\<lambda>(r, n). r \<notin> set qs) (filter (\<lambda>(r, n). r \<noteq> q) f))"
    by (intro Cons.IH) simp
  finally show ?case by (simp only: filter_notin_Cons)
qed

lemma delete_along_Inr:
  "delete_along e f qs = Inr f' \<Longrightarrow> f' = filter (\<lambda>(r, n). r \<notin> set qs) f"
proof (induction qs arbitrary: f)
  case Nil
  then show ?case by (simp add: case_prod_unfold)
next
  case (Cons q qs)
  then have "delete_along e (filter (\<lambda>(r, n). r \<noteq> q) f) qs = Inr f'"
    by (simp split: if_splits)
  from Cons.IH [OF this] show ?case by (simp only: filter_notin_Cons)
qed

lemma delete_along_Inl:
  "delete_along e f qs = Inl (x, f') \<Longrightarrow>
   \<exists>k<length qs. \<not> can_delete e (qs ! k) \<and> f' = filter (\<lambda>(r, n). r \<notin> set (take k qs)) f \<and> x = OSError"
proof (induction qs arbitrary: f)
  case Nil
  then show ?case by simp
next
  case (Cons q qs)
  show ?case
  proof (cases "can_delete e q")
    case False
    with Cons.prems have "x = OSError" "f' = f" by simp_all
    with False show ?thesis by (intro exI [of _ 0]) simp
  next
    case True
    with Cons.prems have "delete_along e (filter (\<lambda>(r, n). r \<noteq> q) f) qs = Inl (x, f')" by simp
    from Cons.IH [OF this] obtain k where
      k: "k < length qs" "\<not> can_delete e (qs ! k)"
         "f' = filter (\<lambda>(r, n). r \<notin> set (take k qs)) (filter (\<lambda>(r, n). r \<noteq> q) f)" "x = OSError"
      by blast
    then show ?thesis
      by (intro exI [of _ "Suc k"]) (simp add: filter_notin_Cons del: set_simps filter_filter)
  qed
qed

lemma walk_under: "q \<in> set (walk f p) \<Longrightarrow> path_under p q"
proof (induction f p arbitrary: q rule: walk.induct)
  case (1 f p)
  from 1(2) have "q = p \<or> (\<exists>name\<in>set (listdir f p).
      q \<in> set (if isdir f (p @ [name]) then walk f (p @ [name]) else [p @ [name]]))"
    by (subst (asm) walk.simps) auto
  then show ?case
  proof
    assume "q = p" then show ?thesis by (simp add: path_under_def)
  next
    assume "\<exists>name\<in>set (listdir f p).
      q \<in> set (if isdir f (p @ [name]) then walk f (p @ [name]) else [p @ [name]])"
    then obtain name where n: "name \<in> set (listdir f p)"
      "q \<in> set (if isdir f (p @ [name]) then walk f (p @ [name]) else [p @ [name]])" by blast
    have "path_under (p @ [name]) q"
    proof (cases "isdir f (p @ [name])")
      case True
      with n 1(1) show ?thesis by simp
    next
      case False
      with n show ?thesis by (simp add: path_under_def)
    qed
    then show ?thesis
      by (auto simp: path_under_def) (metis append_eq_conv_conj append_take_drop_id take_append take_take min.absorb1 length_append le_add1 length_take)
  qed
qed

lemma walk_last: "walk f p = butlast (walk f p) @ [p]"
  by (subst walk.simps, subst (2) walk.simps) simp

lemma walk_self: "p \<in> set (walk f p)"
  by (subst walk.simps) simp

lemma walk_butlast_longer: "q \<in> set (butlast (walk f p)) \<Longrightarrow> length p < length q"
proof -
  assume "q \<in> set (butlast (walk f p))"
  then obtain name where n: "name \<in> set (listdir f p)"
      "q \<in> set (if isdir f (p @ [name]) then walk f (p @ [name]) else [p @ [name]])"
    by (subst (asm) walk.simps) auto
  then have "path_under (p @ [name]) q"
    by (cases "isdir f (p @ [name])") (auto simp: path_under_def dest: walk_under)
  then have "length (p @ [name]) \<le> length q"
    by (metis path_under_def length_take min.cobounded1)
  then show ?thesis by simp
qed

lemma listdir_key: "name \<in> set (listdir f p) \<Longrightarrow> p @ [name] \<in> fst ` set f"
proof -
  assume "name \<in> set (listdir f p)"
  then obtain q n where q: "(q, n) \<in> set f" "q \<noteq> []" "butlast q = p" "last q = name"
    by (auto simp: listdir_def)
  then have "q = p @ [name]" by (metis append_butlast_last_id)
  with q(1) show ?thesis by force
qed

lemma walk_keys: "q \<in> set (walk f p) \<Longrightarrow> q = p \<or> q \<in> fst ` set f"
proof (induction f p arbitrary: q rule: walk.induct)
  case (1 f p)
  from 1(2) have "q = p \<or> (\<exists>name\<in>set (listdir f p).
      q \<in> set (if isdir f (p @ [name]) then walk f (p @ [name]) else [p @ [name]]))"
    by (subst (asm) walk.simps) auto
  then show ?case
  proof
    assume "q = p" then show ?thesis by simp
  next
    assume "\<exists>name\<in>set (listdir f p).
      q \<in> set (if isdir f (p @ [name]) then walk f (p @ [name]) else [p @ [name]])"
    then obtain name where n: "name \<in> set (listdir f p)"
      "q \<in> set (if isdir f (p @ [name]) then walk f (p @ [name]) else [p @ [name]])" by blast
    have k: "p @ [name] \<in> fst ` set f" using n(1) by (rule listdir_key)
    show ?thesis
    proof (cases "isdir f (p @ [name])")
      case True
      with n 1(1) [OF n(1) True, of q] k show ?thesis by auto
    next
      case False
      with n k show ?thesis by simp
    qed
  qed
qed

lemma rmtree_under:
  "(\<And>q. path_under p q \<Longrightarrow> can_delete e q) \<Longrightarrow>
   rmtree e f p = Inr (filter (\<lambda>(r, n). r \<notin> set (walk f p)) f)"
  unfolding rmtree_def by (rule delete_along_ok) (auto dest: walk_under)

lemma rmtree_deletable:
  assumes "list_all (\<lambda>(q, n). can_delete e q) f" "isdir f p"
  shows "rmtree e f p = Inr (filter (\<lambda>(r, n). r \<notin> set (walk f p)) f)"
proof -
  from assms(2) have "p \<in> fst ` set f"
    by (auto simp: isdir_def dest!: map_of_SomeD intro: rev_image_eqI)
  with assms(1) have "\<forall>q\<in>set (walk f p). can_delete e q"
    by (auto simp: list_all_iff dest!: walk_keys)
  then show ?thesis unfolding rmtree_def by (rule delete_along_ok)
qed

lemma not_isdir_filter_walk: "\<not> isdir (filter (\<lambda>(r, n). r \<notin> set (walk f p)) g) p"
  by (simp add: isdir_def map_of_filter_notin walk_self)

lemma not_isdir_filter: "\<not> isdir f p \<Longrightarrow> \<not> isdir (filter (\<lambda>(r, n). r \<notin> S) f) p"
  by (simp add: isdir_def map_of_filter_notin)

lemma rmtree_Inr: "rmtree e f p = Inr f' \<Longrightarrow> f' = filter (\<lambda>(r, n). r \<notin> set (walk f p)) f"
  unfolding rmtree_def by (rule delete_along_Inr)

lemma rmtree_Inl:
  assumes "rmtree e f p = Inl (x, f')"
  shows "x = OSError \<and> map_of f' p = map_of f p \<and> (\<exists>S. f' = filter (\<lambda>(r, n). r \<notin> S) f)"
proof -
  from delete_along_Inl [OF assms [unfolded rmtree_def]] obtain k where
    k: "k < length (walk f p)" "f' = filter (\<lambda>(r, n). r \<notin> set (take k (walk f p))) f" "x = OSError"
    by blast
  from k(1) have "k \<le> length (walk f p) - 1" by simp
  then have "set (take k (walk f p)) \<subseteq> set (butlast (walk f p))"
    by (simp add: butlast_conv_take set_take_subset_set_take)
  then have "p \<notin> set (take k (walk f p))"
    using walk_butlast_longer [of p f p] by auto
  with k show ?thesis by (auto simp: map_of_filter_notin)
qed

lemma path_under_self: "path_under p p"
  by (simp add: path_under_def)

lemma shallow_filter: "shallow k f \<Longrightarrow> shallow k (filter P f)"
  by (auto simp: shallow_def list_all_iff)

lemma ancestors_length: "q \<in> set (ancestors p) \<Longrightarrow> length q < length p"
  by (auto simp: ancestors_def)

lemma makedirs_shallow:
  assumes "shallow k f" "length p \<le> k" "map_of f p = None"
  shows "makedirs f p = Inr (f @ map (\<lambda>q. (q, Dir)) (filter (\<lambda>q. map_of f q = None) (ancestors p @ [p])))"
proof -
  have "\<not> isfile f q" if "q \<in> set (ancestors p)" for q
    using that assms(1,2) ancestors_length [of q p] shallow_not_isfile [of k f q] by simp
  with assms(3) show ?thesis by (auto simp: makedirs_def list_ex_iff)
qed

lemma shallow_append_dirs: "shallow k f \<Longrightarrow> shallow k (f @ map (\<lambda>q. (q, Dir)) qs)"
  by (auto simp: shallow_def list_all_iff)

lemma prepare_dirs:
  assumes del: "list_all (\<lambda>(q, n). can_delete e q) f" and sh: "shallow k f"
    and D: "length D \<le> k" and P: "length P \<le> k"
  shows "\<exists>f1 f2 f3. (if isdir f D then rmtree e f D else Inr f) = Inr f1
           \<and> makedirs f1 D = Inr f2
           \<and> (if \<not> isdir f2 P then makedirs f2 P else Inr f2) = Inr f3"
proof -
  define f1 where "f1 = (if isdir f D then filter (\<lambda>(r, n). r \<notin> set (walk f D)) f else f)"
  have 1: "(if isdir f D then rmtree e f D else Inr f) = Inr f1"
    using del by (simp add: f1_def rmtree_deletable)
  have sh1: "shallow k f1" using sh by (simp add: f1_def shallow_filter)
  have none1: "map_of f1 D = None"
    using sh D by (auto simp: f1_def map_of_filter_notin walk_self shallow_not_isdir)
  define f2 where "f2 = f1 @ map (\<lambda>q. (q, Dir)) (filter (\<lambda>q. map_of f1 q = None) (ancestors D @ [D]))"
  have 2: "makedirs f1 D = Inr f2"
    unfolding f2_def using sh1 D none1 by (rule makedirs_shallow)
  have sh2: "shallow k f2" unfolding f2_def using sh1 by (rule shallow_append_dirs)
  have 3: "\<exists>f3. (if \<not> isdir f2 P then makedirs f2 P else Inr f2) = Inr f3"
  proof (cases "isdir f2 P")
    case True then show ?thesis by simp
  next
    case False
    with sh2 P have "map_of f2 P = None" by (simp add: shallow_not_isdir)
    with sh2 P show ?thesis by (simp add: makedirs_shallow)
  qed
  from 1 2 3 show ?thesis by blast
qed

lemma disk_ok_parts:
  "disk_ok self e f \<Longrightarrow> list_all (\<lambda>(q, n). can_delete e q) f \<and>
     shallow (max (Suc (length (w_workdir self))) (length (w_profile_dir self))) f"
  by (auto simp: disk_ok_def shallow_def list_all_iff)

lemma new_task_lengths:
  "length (t_dir (new_task self i st)) \<le> max (Suc (length (w_workdir self))) (length (w_profile_dir self))"
  "length (t_profile (new_task self i st)) \<le> max (Suc (length (w_workdir self))) (length (w_profile_dir self))"
  by (auto simp: new_task_def Let_def append_name_def)

lemma view_build_script: "view (build_script j t) = view t"
  by (simp add: build_script_def view_def split: option.splits)

lemma get_task_total:
  assumes "disk_ok self e f" "j_runs j = Some n" "j_test_id j = Some i"
  shows "\<exists>r. get_task self e j f = Inr r"
proof -
  let ?t = "new_task self i (next_state j)"
  let ?k = "max (Suc (length (w_workdir self))) (length (w_profile_dir self))"
  have del: "list_all (\<lambda>(q, n). can_delete e q) f" and sh: "shallow ?k f"
    using disk_ok_parts [OF assms(1)] by simp_all
  have D: "length (t_dir ?t) \<le> ?k" and P: "length (t_profile ?t) \<le> ?k"
    by (rule new_task_lengths)+
  from prepare_dirs [OF del sh D P]
  obtain f1 f2 f3 where
     "(if isdir f (t_dir ?t) then rmtree e f (t_dir ?t) else Inr f) = Inr f1"
     "makedirs f1 (t_dir ?t) = Inr f2"
     "(if \<not> isdir f2 (t_profile ?t) then makedirs f2 (t_profile ?t) else Inr f2) = Inr f3"
    by blast
  then show ?thesis using assms(2,3)
    by (simp add: get_task_def no_task_def Let_def)
qed

lemma alive_iff: "(case j_current_state j of None \<Rightarrow> True | Some s \<Rightarrow> \<not> s_done s) = (\<not> job_done j)"
  by (simp add: job_done_def split: option.splits)

lemma next_state_not_done: "\<not> job_done j \<Longrightarrow> \<not> s_done (next_state j)"
  by (auto simp: job_done_def next_state_def split: option.splits)

lemma get_task_dead:
  "job_done j \<Longrightarrow> get_task self e j f = Inr (t, j', f') \<Longrightarrow> t = None \<and> j' = j"
  by (simp add: get_task_def alive_iff no_task_def)

lemma get_task_past:
  "\<not> job_done j \<Longrightarrow> j_runs j = Some n \<Longrightarrow> \<not> s_run (next_state j) \<le> n \<Longrightarrow>
   get_task self e j f = Inr (t, j', f') \<Longrightarrow>
   t = None \<and> j' = j\<lparr>j_current_state := Some (next_state j)\<rparr>"
  by (simp add: get_task_def alive_iff no_task_def Let_def)

lemma chain3:
  "(case a of Inl x \<Rightarrow> Inl (p x) | Inr f1 \<Rightarrow>
      (case b f1 of Inl x \<Rightarrow> Inl (q x f1) | Inr f2 \<Rightarrow>
         (case c f2 of Inl x \<Rightarrow> Inl (r' x f2) | Inr f3 \<Rightarrow> h f3))) = Inr r
   \<Longrightarrow> \<exists>f3. h f3 = Inr r"
  by (auto split: sum.splits)

lemma get_task_live:
  assumes "\<not> job_done j" "j_runs j = Some n" "s_run (next_state j) \<le> n"
    and "get_task self e j f = Inr (t, j', f')"
  shows "\<exists>tt. t = Some tt \<and>
           view tt = (s_run (next_state j), (if s_repeat_view (next_state j) then 1 else 0),
                      s_run (next_state j) = n \<and> (s_repeat_view (next_state j) \<or> fvonly_set j)) \<and>
           j' = j\<lparr>j_current_state := Some ((next_state j)\<lparr>s_done :=
                      s_run (next_state j) = n \<and> (s_repeat_view (next_state j) \<or> fvonly_set j)\<rparr>)\<rparr>"
proof -
  let ?st = "next_state j"
  let ?fin = "s_run ?st = n \<and> (s_repeat_view ?st \<or> fvonly_set j)"
  have fv: "fvonly_set (j\<lparr>j_current_state := Some ?st\<rparr>) = fvonly_set j"
    by (simp add: fvonly_set_def)
  have nd: "?st\<lparr>s_done := False\<rparr> = ?st"
    using next_state_not_done [OF assms(1)] by simp
  from assms obtain i where i: "j_test_id j = Some i"
    by (cases "j_test_id j") (simp_all add: get_task_def alive_iff Let_def)
  let ?t = "new_task self i ?st"
  have vt: "view ?t = (s_run ?st, (if s_repeat_view ?st then 1 else 0), False)"
    by (simp add: view_def new_task_def Let_def)
  have vt2: "view (?t\<lparr>t_done := True\<rparr>) = (s_run ?st, (if s_repeat_view ?st then 1 else 0), True)"
    by (simp add: view_def new_task_def Let_def)
  from assms i have "(case if isdir f (t_dir ?t) then rmtree e f (t_dir ?t) else Inr f of
       Inl x \<Rightarrow> Inl x
     | Inr f1 \<Rightarrow>
        (case makedirs f1 (t_dir ?t) of
           Inl x \<Rightarrow> Inl (x, f1)
         | Inr f2 \<Rightarrow>
            (case (if \<not> isdir f2 (t_profile ?t) then makedirs f2 (t_profile ?t) else Inr f2) of
               Inl x \<Rightarrow> Inl (x, f2)
             | Inr f3 \<Rightarrow>
                (let fin = (s_run ?st = n \<and> (s_repeat_view ?st \<or> fvonly_set (j\<lparr>j_current_state := Some ?st\<rparr>)));
                     j2 = (if fin then j\<lparr>j_current_state := Some ?st\<rparr>\<lparr>j_current_state := Some (?st\<lparr>s_done := True\<rparr>)\<rparr>
                           else j\<lparr>j_current_state := Some ?st\<rparr>);
                     t2 = (if fin then ?t\<lparr>t_done := True\<rparr> else ?t)
                 in Inr (Some (build_script j2 t2), j2, f3))))) = Inr (t, j', f')"
    by (simp add: get_task_def alive_iff Let_def)
  from chain3 [OF this] have ex: "\<exists>f3. (t, j', f') =
      (Some (build_script (if ?fin then j\<lparr>j_current_state := Some (?st\<lparr>s_done := True\<rparr>)\<rparr> else j\<lparr>j_current_state := Some ?st\<rparr>)
                      (if ?fin then ?t\<lparr>t_done := True\<rparr> else ?t)),
          (if ?fin then j\<lparr>j_current_state := Some (?st\<lparr>s_done := True\<rparr>)\<rparr> else j\<lparr>j_current_state := Some ?st\<rparr>), f3)"
    by (auto simp: Let_def fv)
  show ?thesis
  proof (cases ?fin)
    case True
    with ex vt2 show ?thesis by (auto simp: view_build_script)
  next
    case False
    with ex vt nd show ?thesis by (auto simp: view_build_script)
  qed
qed

lemma concat_pairs:
  "concat (map (\<lambda>r. [a r, b r]) [1..<Suc N]) =
   map (\<lambda>k. if even k then a (Suc (k div 2)) else b (Suc (k div 2))) [0..<2 * N]"
proof (induction N)
  case 0 show ?case by simp
next
  case (Suc N)
  have "[0..<2 * Suc N] = [0..<2 * N] @ [2 * N, Suc (2 * N)]" by simp
  with Suc show ?case by simp
qed

lemma spec_task_sequence_entry:
  "spec_task_sequence fv N = map (entry fv N) [0..<n_tasks fv N]"
proof (cases fv)
  case True
  have "map (\<lambda>r. (int r, 0::int, r = N)) [1..<Suc N] = map (\<lambda>k. (int (Suc k), 0, Suc k = N)) [0..<N]"
    by (simp add: map_Suc_upt [symmetric] del: upt_Suc)
  with True show ?thesis by (simp add: spec_task_sequence_def n_tasks_def entry_def)
next
  case False
  have e: "(if even k then (int (Suc (k div 2)), 0::int, False) else (int (Suc (k div 2)), 1, Suc (k div 2) = N))
      = entry False N k" for k
  proof (cases "even k")
    case True
    then have "Suc k \<noteq> 2 * N" by presburger
    with True show ?thesis by (simp add: entry_def)
  next
    case False
    then have "(Suc (k div 2) = N) = (Suc k = 2 * N)" by presburger
    with False show ?thesis by (simp add: entry_def)
  qed
  from False have fvF: "fv = False" by simp
  show ?thesis
    unfolding spec_task_sequence_def n_tasks_def fvF
    by (simp only: if_False concat_pairs e)
qed

lemma next_state_at:
  assumes "j_current_state j = state_at fv N k" "fvonly_set j = fv" "k < n_tasks fv N"
  shows "next_state j = \<lparr>s_run = int (if fv then Suc k else Suc (k div 2)),
                          s_repeat_view = (\<not> fv \<and> odd k), s_done = False\<rparr>"
proof (cases "k = 0")
  case True
  with assms show ?thesis by (simp add: next_state_def state_at_def)
next
  case False
  note k = this
  show ?thesis
  proof (cases fv)
    case True
    with assms k show ?thesis by (simp add: next_state_def state_at_def)
  next
    case False
    note fv = this
    show ?thesis
    proof (cases "even k")
      case True
      with k have "Suc ((k - 1) div 2) = k div 2" by presburger
      with assms k fv True show ?thesis by (simp add: next_state_def state_at_def)
    next
      case False
      with k have "(k - 1) div 2 = k div 2" by presburger
      with assms k fv False show ?thesis by (simp add: next_state_def state_at_def)
    qed
  qed
qed

lemma state_at_alive: "k < n_tasks fv N \<Longrightarrow> j_current_state j = state_at fv N k \<Longrightarrow> \<not> job_done j"
  by (simp add: job_done_def state_at_def)

lemma step_at:
  assumes k: "k < n_tasks fv N" and st: "j_current_state j = state_at fv N k"
    and runs: "j_runs j = Some (int N)" and fv: "fvonly_set j = fv"
    and call: "get_task self e j f = Inr (t, j', f')"
  shows "map_option view t = Some (entry fv N k) \<and> j_current_state j' = state_at fv N (Suc k)
         \<and> j_runs j' = Some (int N) \<and> fvonly_set j' = fv"
proof -
  note ns = next_state_at [OF st fv k]
  have alive: "\<not> job_done j" using k st by (rule state_at_alive)
  have le: "s_run (next_state j) \<le> int N"
    using k by (auto simp: ns n_tasks_def split: if_splits)
  have fin: "(s_run (next_state j) = int N \<and> (s_repeat_view (next_state j) \<or> fvonly_set j)) = (Suc k = n_tasks fv N)"
  proof (cases fv)
    case True then show ?thesis using fv by (auto simp: ns n_tasks_def)
  next
    case False
    have "(int (Suc (k div 2)) = int N \<and> odd k) = (Suc k = 2 * N)" by presburger
    with False show ?thesis using fv by (simp add: ns n_tasks_def del: of_nat_Suc)
  qed
  from get_task_live [OF alive runs le call] obtain tt where
    t: "t = Some tt" and
    v: "view tt = (s_run (next_state j), (if s_repeat_view (next_state j) then 1 else 0),
                      s_run (next_state j) = int N \<and> (s_repeat_view (next_state j) \<or> fvonly_set j))" and
    j': "j' = j\<lparr>j_current_state := Some ((next_state j)\<lparr>s_done :=
                      s_run (next_state j) = int N \<and> (s_repeat_view (next_state j) \<or> fvonly_set j)\<rparr>)\<rparr>"
    by blast
  have 1: "map_option view t = Some (entry fv N k)"
    using k v [unfolded fin] by (auto simp: t ns entry_def n_tasks_def)
  have 2: "j_current_state j' = state_at fv N (Suc k)"
    unfolding j' fin by (simp add: ns state_at_def)
  have 3: "j_runs j' = Some (int N)" using runs by (simp add: j')
  have 4: "fvonly_set j' = fv" using fv by (simp add: j' fvonly_set_def)
  from 1 2 3 4 show ?thesis by blast
qed

lemma get_task_step:
  assumes "get_task self e j f = Inr (t, j', f')"
  shows "(job_done j \<longrightarrow> t = None \<and> j' = j) \<and>
         (\<not> job_done j \<longrightarrow> (\<exists>d. j' = j\<lparr>j_current_state := Some ((next_state j)\<lparr>s_done := d\<rparr>)\<rparr>))"
proof (cases "job_done j")
  case True
  with assms show ?thesis by (simp add: get_task_dead)
next
  case False
  with assms obtain n where n: "j_runs j = Some n"
    by (cases "j_runs j") (simp_all add: get_task_def alive_iff Let_def)
  show ?thesis
  proof (cases "s_run (next_state j) \<le> n")
    case True
    from get_task_live [OF False n True assms] show ?thesis using False by blast
  next
    case le: False
    from get_task_past [OF False n le assms]
    have "j' = j\<lparr>j_current_state := Some ((next_state j)\<lparr>s_done := s_done (next_state j)\<rparr>)\<rparr>" by simp
    with False show ?thesis by blast
  qed
qed

lemma next_state_run_mono:
  "j_current_state j = Some s \<Longrightarrow> s_run s \<le> s_run (next_state j)"
  by (simp add: next_state_def)

lemma next_state_ignores_done:
  "s_run (next_state (j\<lparr>j_current_state := Some (s\<lparr>s_done := d\<rparr>)\<rparr>)) = s_run (next_state (j\<lparr>j_current_state := Some s\<rparr>))"
  by (simp add: next_state_def fvonly_set_def)

lemma exhausted_step:
  assumes "exhausted j" "j_runs j = Some n" "get_task self e j f = Inr (t, j', f')"
  shows "t = None \<and> exhausted j' \<and> j_runs j' = Some n"
proof (cases "job_done j")
  case True
  from get_task_dead [OF True assms(3)] have "t = None" "j' = j" by simp_all
  with assms show ?thesis by simp
next
  case False
  with assms(1,2) have lt: "n < s_run (next_state j)" by (simp add: exhausted_def)
  then have "\<not> s_run (next_state j) \<le> n" by simp
  from get_task_past [OF False assms(2) this assms(3)]
  have t: "t = None" and j': "j' = j\<lparr>j_current_state := Some (next_state j)\<rparr>" by simp_all
  have "s_run (next_state j) \<le> s_run (next_state j')"
    unfolding j' by (rule next_state_run_mono) simp
  with lt assms(2) have "exhausted j'" by (simp add: exhausted_def j')
  with t assms(2) show ?thesis by (simp add: j')
qed

lemma get_tasks_Cons:
  assumes "get_tasks self j (w # ws) = Inr rs"
  obtains t j' f' rs' where "get_task self (fst w) j (snd w) = Inr (t, j', f')"
    "get_tasks self j' ws = Inr rs'" "rs = (t, j') # rs'"
  using assms by (auto split: sum.splits)

lemma exhausted_trace:
  "exhausted j \<Longrightarrow> j_runs j = Some n \<Longrightarrow> get_tasks self j ws = Inr rs \<Longrightarrow>
   map fst rs = replicate (length ws) None"
proof (induction ws arbitrary: j rs)
  case Nil
  then show ?case by simp
next
  case (Cons w ws)
  from Cons.prems(3) obtain t j' f' rs' where
    c: "get_task self (fst w) j (snd w) = Inr (t, j', f')" and
    r: "get_tasks self j' ws = Inr rs'" and rs: "rs = (t, j') # rs'"
    by (rule get_tasks_Cons)
  from exhausted_step [OF Cons.prems(1,2) c]
  have "t = None" "exhausted j'" "j_runs j' = Some n" by simp_all
  with Cons.IH [OF _ _ r] rs show ?case by simp
qed

lemma at_total_exhausted:
  "j_current_state j = state_at fv N (n_tasks fv N) \<Longrightarrow> j_runs j = Some (int N) \<Longrightarrow> exhausted j"
  by (cases "n_tasks fv N = 0")
     (auto simp: exhausted_def job_done_def state_at_def next_state_def n_tasks_def split: if_splits)

lemma take_pad: "n \<le> m \<Longrightarrow> take n (xs @ replicate m a) = take n (xs @ replicate n a)"
  by (auto simp: min_def)

lemma trace_from:
  assumes "k \<le> n_tasks fv N" "j_current_state j = state_at fv N k" "j_runs j = Some (int N)"
    "fvonly_set j = fv" "get_tasks self j ws = Inr rs"
  shows "map (map_option view \<circ> fst) rs =
         take (length ws) (map (Some \<circ> entry fv N) [k..<n_tasks fv N] @ replicate (length ws) None)"
  using assms
proof (induction ws arbitrary: j k rs)
  case Nil
  then show ?case by simp
next
  case (Cons w ws)
  from Cons.prems(5) obtain t j' f' rs' where
    c: "get_task self (fst w) j (snd w) = Inr (t, j', f')" and
    r: "get_tasks self j' ws = Inr rs'" and rs: "rs = (t, j') # rs'"
    by (rule get_tasks_Cons)
  show ?case
  proof (cases "k < n_tasks fv N")
    case True
    from step_at [OF True Cons.prems(2,3,4) c]
    have h: "map_option view t = Some (entry fv N k)" and
      st: "j_current_state j' = state_at fv N (Suc k)" and
      rn: "j_runs j' = Some (int N)" and fv: "fvonly_set j' = fv" by simp_all
    from True have sk: "Suc k \<le> n_tasks fv N" by simp
    have up: "[k..<n_tasks fv N] = k # [Suc k..<n_tasks fv N]"
      using True by (rule upt_conv_Cons)
    have "take (length ws) (map (Some \<circ> entry fv N) [Suc k..<n_tasks fv N] @ replicate (Suc (length ws)) None)
        = take (length ws) (map (Some \<circ> entry fv N) [Suc k..<n_tasks fv N] @ replicate (length ws) None)"
      by (rule take_pad) simp
    with Cons.IH [OF sk st rn fv r] h show ?thesis
      by (simp add: rs up)
  next
    case False
    with Cons.prems(1) have k: "k = n_tasks fv N" by simp
    have "exhausted j" using Cons.prems(2,3) unfolding k by (rule at_total_exhausted)
    from exhausted_trace [OF this Cons.prems(3,5)]
    have "map fst rs = replicate (length (w # ws)) None" .
    then have "map (map_option view \<circ> fst) rs = map (map_option view) (replicate (length (w # ws)) None)"
      by (simp flip: map_map)
    then show ?thesis by (simp add: k comp_def)
  qed
qed

lemma get_tasks_total:
  "list_all (\<lambda>(e, f). disk_ok self e f) ws \<Longrightarrow> j_runs j = Some n \<Longrightarrow> j_test_id j = Some i \<Longrightarrow>
   \<exists>rs. get_tasks self j ws = Inr rs"
proof (induction ws arbitrary: j)
  case Nil
  show ?case by simp
next
  case (Cons w ws)
  from Cons.prems(1) have ok: "disk_ok self (fst w) (snd w)" by (cases w) simp
  from get_task_total [OF ok Cons.prems(2,3)] obtain t j' f' where
    c: "get_task self (fst w) j (snd w) = Inr (t, j', f')" by (metis prod_cases3)
  from get_task_step [OF c] Cons.prems(2,3)
  have "j_runs j' = Some n" "j_test_id j' = Some i" by (cases "job_done j"; auto)+
  with Cons.IH [of j'] Cons.prems(1) obtain rs where "get_tasks self j' ws = Inr rs" by auto
  with c show ?case by simp
qed

text \<open>
  Claim C1. Take a job with \<open>runs = N\<close> that has not been asked for a task yet, and any
  number of successive \<open>get_task\<close> requests, each on a disk where nothing blocks the
  making of the task and profile directories. Every request returns, and the tasks come out
  as the specification announces: without \<open>fvonly\<close> the first \<open>2N\<close> requests give runs
  \<open>1..N\<close> in ascending order, each run first with \<open>cached = 0\<close> and then with
  \<open>cached = 1\<close>, only the \<open>2N\<close>-th task has \<open>done\<close> set, and request \<open>2N + 1\<close> and all
  later ones give no task; with \<open>fvonly\<close> the first \<open>N\<close> requests give runs \<open>1..N\<close> with
  \<open>cached = 0\<close>, only the last has \<open>done\<close> set, and every later request gives no task.
\<close>

theorem get_task_sequence:
  assumes "j_current_state j = None" "j_runs j = Some (int N)" "j_test_id j = Some i"
    and "list_all (\<lambda>(e, f). disk_ok self e f) ws"
  shows "\<exists>rs. get_tasks self j ws = Inr rs \<and>
           map (map_option view \<circ> fst) rs =
           take (length ws) (map Some (spec_task_sequence (fvonly_set j) N) @ replicate (length ws) None)"
proof -
  from get_tasks_total [OF assms(4,2,3)] obtain rs where rs: "get_tasks self j ws = Inr rs" ..
  have st: "j_current_state j = state_at (fvonly_set j) N 0"
    using assms(1) by (simp add: state_at_def)
  from trace_from [OF _ st assms(2) refl rs]
  have "map (map_option view \<circ> fst) rs =
        take (length ws) (map (Some \<circ> entry (fvonly_set j) N) [0..<n_tasks (fvonly_set j) N] @ replicate (length ws) None)"
    by simp
  then have "map (map_option view \<circ> fst) rs =
        take (length ws) (map Some (spec_task_sequence (fvonly_set j) N) @ replicate (length ws) None)"
    by (simp add: spec_task_sequence_entry)
  with rs show ?thesis by blast
qed

theorem get_task_sequence_witness:
  "(\<exists>rs. get_tasks example_wpt example_job (replicate 5 (example_env, [])) = Inr rs \<and>
      map (map_option view \<circ> fst) rs =
      [Some (1, 0, False), Some (1, 1, False), Some (2, 0, False), Some (2, 1, True), None]) \<and>
   (\<exists>rs. get_tasks example_wpt (example_job\<lparr>j_fvonly := Some True\<rparr>) (replicate 3 (example_env, [])) = Inr rs \<and>
      map (map_option view \<circ> fst) rs = [Some (1, 0, False), Some (2, 0, True), None])"
  using get_task_sequence [where j = example_job and N = 2 and i = "''T1''"
      and ws = "replicate 5 (example_env, [])" and self = example_wpt]
    get_task_sequence [where j = "example_job\<lparr>j_fvonly := Some True\<rparr>" and N = 2 and i = "''T1''"
      and ws = "replicate 3 (example_env, [])" and self = example_wpt]
  by (simp add: example_job_def disk_ok_def fvonly_set_def spec_task_sequence_def eval_nat_numeral)

lemma runs_seen_Cons:
  "runs_seen (j # js) = (case j_current_state j of None \<Rightarrow> [] | Some s \<Rightarrow> [s_run s]) @ runs_seen js"
  by (simp add: runs_seen_def)

lemma get_task_run_mono:
  assumes "get_task self e j f = Inr (t, j', f')"
  shows "\<exists>s'. j_current_state j' = Some s' \<and> (\<forall>s. j_current_state j = Some s \<longrightarrow> s_run s \<le> s_run s')"
proof (cases "job_done j")
  case True
  with get_task_step [OF assms] have "j' = j" by simp
  with True show ?thesis by (auto simp: job_done_def split: option.splits)
next
  case False
  with get_task_step [OF assms] obtain d where
    "j' = j\<lparr>j_current_state := Some ((next_state j)\<lparr>s_done := d\<rparr>)\<rparr>" by blast
  then show ?thesis by (simp add: next_state_run_mono)
qed

lemma trace_mono_aux:
  "get_tasks self j ws = Inr rs \<Longrightarrow>
   sorted (runs_seen (j # map snd rs)) \<and>
   (\<forall>s. j_current_state j = Some s \<longrightarrow> (\<forall>r\<in>set (runs_seen (map snd rs)). s_run s \<le> r))"
proof (induction ws arbitrary: j rs)
  case Nil
  then show ?case by (simp add: runs_seen_def split: option.splits)
next
  case (Cons w ws)
  from Cons.prems obtain t j' f' rs' where
    c: "get_task self (fst w) j (snd w) = Inr (t, j', f')" and
    r: "get_tasks self j' ws = Inr rs'" and rs: "rs = (t, j') # rs'"
    by (rule get_tasks_Cons)
  from get_task_run_mono [OF c] obtain s' where
    s': "j_current_state j' = Some s'" and
    le: "\<And>s. j_current_state j = Some s \<Longrightarrow> s_run s \<le> s_run s'" by blast
  from Cons.IH [OF r] s' have
    srt: "sorted (s_run s' # runs_seen (map snd rs'))" and
    lb: "\<forall>r\<in>set (runs_seen (map snd rs')). s_run s' \<le> r"
    by (simp_all add: runs_seen_Cons)
  have tail: "runs_seen (map snd rs) = s_run s' # runs_seen (map snd rs')"
    by (simp add: rs runs_seen_Cons s')
  show ?case
  proof (cases "j_current_state j")
    case None
    with srt show ?thesis by (simp add: runs_seen_Cons tail del: sorted_wrt.simps)
  next
    case (Some s)
    from le [OF Some] lb have "\<forall>r\<in>set (s_run s' # runs_seen (map snd rs')). s_run s \<le> r"
      by auto
    with srt Some show ?thesis by (simp add: runs_seen_Cons tail)
  qed
qed

lemma done_trace:
  "job_done j \<Longrightarrow> get_tasks self j ws = Inr rs \<Longrightarrow> \<forall>r\<in>set rs. fst r = None"
proof (induction ws arbitrary: rs)
  case Nil
  then show ?case by simp
next
  case (Cons w ws)
  from Cons.prems(2) obtain t j' f' rs' where
    c: "get_task self (fst w) j (snd w) = Inr (t, j', f')" and
    r: "get_tasks self j' ws = Inr rs'" and rs: "rs = (t, j') # rs'"
    by (rule get_tasks_Cons)
  from get_task_dead [OF Cons.prems(1) c] have "t = None" "j' = j" by simp_all
  with Cons.IH [OF Cons.prems(1)] r rs show ?case by simp
qed

lemma get_tasks_drop:
  "get_tasks self j ws = Inr rs \<Longrightarrow> i \<le> length rs \<Longrightarrow>
   get_tasks self ((j # map snd rs) ! i) (drop i ws) = Inr (drop i rs)"
proof (induction ws arbitrary: j rs i)
  case Nil
  then show ?case by simp
next
  case (Cons w ws)
  from Cons.prems(1) obtain t j' f' rs' where
    c: "get_task self (fst w) j (snd w) = Inr (t, j', f')" and
    r: "get_tasks self j' ws = Inr rs'" and rs: "rs = (t, j') # rs'"
    by (rule get_tasks_Cons)
  show ?case
  proof (cases i)
    case 0
    with Cons.prems(1) show ?thesis by simp
  next
    case (Suc i')
    with Cons.prems(2) rs have "i' \<le> length rs'" by simp
    from Cons.IH [OF r this] show ?thesis by (simp add: Suc rs)
  qed
qed

text \<open>
  Claim C2. Along any sequence of successive \<open>get_task\<close> requests on one job that
  return, the run numbers held by the job's cursor, read before the first request and after
  each one, never decrease; and once the cursor has \<open>done\<close> set, that request and every
  later one give no task.
\<close>

theorem run_monotone_done_terminal:
  assumes "get_tasks self j ws = Inr rs"
  shows "sorted (runs_seen (j # map snd rs)) \<and>
         (\<forall>i k. i \<le> k \<and> k < length rs \<and> job_done ((j # map snd rs) ! i) \<longrightarrow> fst (rs ! k) = None)"
proof -
  have "fst (rs ! k) = None" if "i \<le> k" "k < length rs" "job_done ((j # map snd rs) ! i)" for i k
  proof -
    from that have i: "i \<le> length rs" by simp
    from done_trace [OF that(3) get_tasks_drop [OF assms i]]
    have all: "\<forall>r\<in>set (drop i rs). fst r = None" .
    from that have "rs ! k = drop i rs ! (k - i)" "k - i < length (drop i rs)" by simp_all
    then have "rs ! k \<in> set (drop i rs)" by (metis nth_mem)
    with all show ?thesis by blast
  qed
  with trace_mono_aux [OF assms] show ?thesis by blast
qed

theorem run_monotone_done_terminal_witness:
  "\<exists>rs. get_tasks example_wpt example_job (replicate 6 (example_env, [])) = Inr rs \<and>
     runs_seen (example_job # map snd rs) = [1, 1, 2, 2, 2, 2] \<and>
     sorted (runs_seen (example_job # map snd rs)) \<and>
     job_done ((example_job # map snd rs) ! 4) \<and> fst (rs ! 4) = None \<and> fst (rs ! 5) = None"
proof -
  let ?ws = "replicate 6 (example_env, [])"
  have "\<exists>rs. get_tasks example_wpt example_job ?ws = Inr rs"
    by (rule get_tasks_total [where n = 2 and i = "''T1''"])
       (simp_all add: example_job_def disk_ok_def list_all_iff)
  then obtain rs where rs: "get_tasks example_wpt example_job ?ws = Inr rs" ..
  then have p: "rs = projr (get_tasks example_wpt example_job ?ws)" by simp
  have seen: "runs_seen (example_job # map snd (projr (get_tasks example_wpt example_job ?ws))) = [1, 1, 2, 2, 2, 2]"
    by code_simp
  have dn: "job_done ((example_job # map snd (projr (get_tasks example_wpt example_job ?ws))) ! 4)"
    by code_simp
  have len: "length (projr (get_tasks example_wpt example_job ?ws)) = 6"
    by code_simp
  note th = run_monotone_done_terminal [OF rs]
  from th have none: "i \<le> k \<Longrightarrow> k < length rs \<Longrightarrow> job_done ((example_job # map snd rs) ! i) \<Longrightarrow>
      fst (rs ! k) = None" for i k by blast
  from none [of 4 4] none [of 4 5] dn len have "fst (rs ! 4) = None" "fst (rs ! 5) = None"
    unfolding p [symmetric] by simp_all
  with th seen dn rs show ?thesis
    unfolding p [symmetric] by blast
qed






lemma build_query_None:
  "(k, None) \<in> set data \<Longrightarrow> build_query url data = Inl TypeError"
  by (induction url data rule: build_query.induct) (auto simp: quote_plus_value_def split: option.splits)

lemma build_query_Some:
  "list_all (\<lambda>(k, v). v \<noteq> None) data \<Longrightarrow> \<exists>u. build_query url data = Inr u"
  by (induction url data rule: build_query.induct) (auto simp: quote_plus_value_def split: option.splits)

lemma key_in_task_data: "(''key'', w_key self) \<in> set (task_data self t @ extra)"
  by (simp add: task_data_def)

lemma post_data_no_key:
  "w_key self = None \<Longrightarrow> post_data e url (task_data self t @ extra) fp fn w = Inl (TypeError, w)"
  using key_in_task_data [of self t extra] by (simp add: post_data_def build_query_None)

lemma post_data_no_key':
  "w_key self = None \<Longrightarrow> post_data e url (task_data self t) fp fn w = Inl (TypeError, w)"
  using post_data_no_key [of self e url t "[]"] by simp

lemma upload_video_no_key:
  "w_key self = None \<Longrightarrow>
   upload_video e url (task_data self t) pre vd names w = Inr w \<or>
   upload_video e url (task_data self t) pre vd names w = Inl (TypeError, w)"
  by (induction names) (auto simp: Let_def post_data_no_key')

lemma upload_large_no_key:
  "w_key self = None \<Longrightarrow>
   (\<exists>nz. upload_large e url (task_data self t) d names needs_zip w = Inr (nz, w)) \<or>
   upload_large e url (task_data self t) d names needs_zip w = Inl (TypeError, w)"
  by (induction names arbitrary: needs_zip) (auto simp: Let_def post_data_no_key')

lemma create_zip_posts:
  "create_zip zp w = Inr w' \<Longrightarrow> posts w' = posts w"
  "create_zip zp w = Inl (x, w') \<Longrightarrow> posts w' = posts w"
  by (auto simp: create_zip_def split: if_splits)

lemma zip_write_posts:
  "(zip_write e zp files w = Inr w' \<longrightarrow> posts w' = posts w) \<and>
   (zip_write e zp files w = Inl (x, w') \<longrightarrow> posts w' = posts w)"
  by (induction files arbitrary: w) (auto simp: Let_def split: sum.splits if_splits)

lemma package_files_no_key:
  assumes "w_key self = None"
  shows "(package_files self e t w = Inr (zp, w') \<longrightarrow> posts w' = posts w) \<and>
         (package_files self e t w = Inl (x, w') \<longrightarrow> posts w' = posts w)"
proof (cases "isdir (disk w) (t_dir t)")
  case False
  then show ?thesis by (simp add: package_files_def)
next
  case True
  let ?vd = "t_dir t @ [''video'']"
  let ?v = "(if isdir (disk w) ?vd
            then upload_video e (w_url self) (task_data self t) (t_prefix t) ?vd (listdir (disk w) ?vd) w
            else Inr w)"
  from upload_video_no_key [OF assms] have v: "?v = Inr w \<or> ?v = Inl (TypeError, w)" by simp
  show ?thesis
  proof (cases "?v = Inr w")
    case False
    with v have "?v = Inl (TypeError, w)" by simp
    with True show ?thesis by (simp add: package_files_def Let_def)
  next
    case vr: True
    let ?l = "upload_large e (w_url self) (task_data self t) (t_dir t) (listdir (disk w) (t_dir t)) [] w"
    from upload_large_no_key [OF assms] have "(\<exists>nz. ?l = Inr (nz, w)) \<or> ?l = Inl (TypeError, w)" .
    then show ?thesis
    proof
      assume "?l = Inl (TypeError, w)"
      with True vr show ?thesis by (simp add: package_files_def Let_def)
    next
      assume "\<exists>nz. ?l = Inr (nz, w)"
      then obtain nz where l: "?l = Inr (nz, w)" ..
      show ?thesis
      proof (cases "nz = []")
        case True
        with \<open>isdir (disk w) (t_dir t)\<close> vr l show ?thesis
          by (auto simp: package_files_def Let_def)
      next
        case nz: False
        let ?zp = "t_dir t @ [''result.zip'']"
        show ?thesis
        proof (cases "create_zip ?zp w")
          case (Inl a)
          then obtain y w3 where c: "create_zip ?zp w = Inl (y, w3)" by (cases a) simp
          from create_zip_posts(2) [OF c] have "posts w3 = posts w" .
          with \<open>isdir (disk w) (t_dir t)\<close> vr l nz c show ?thesis
            by (simp add: package_files_def Let_def) blast
        next
          case (Inr w3)
          from create_zip_posts(1) [OF Inr] have p3: "posts w3 = posts w" .
          from \<open>isdir (disk w) (t_dir t)\<close> vr l nz Inr
          have pf: "package_files self e t w =
              (case zip_write e ?zp nz w3 of Inl x \<Rightarrow> Inl x | Inr w4 \<Rightarrow> Inr (Some ?zp, w4))"
            by (simp add: package_files_def Let_def)
          show ?thesis
          proof (cases "zip_write e ?zp nz w3")
            case (Inl a)
            then obtain y w4 where z: "zip_write e ?zp nz w3 = Inl (y, w4)" by (cases a) simp
            with zip_write_posts [of e ?zp nz w3 w4 y] p3 have "posts w4 = posts w" by simp
            with pf z show ?thesis by auto
          next
            case (Inr w4)
            with zip_write_posts [of e ?zp nz w3 w4] p3 have "posts w4 = posts w" by simp
            with pf Inr show ?thesis by auto
          qed
        qed
      qed
    qed
  qed
qed

lemma post_data_returns:
  assumes "list_all (\<lambda>(k, v). v \<noteq> None) data"
  shows "\<exists>ok w'. post_data e url data fp fn w = Inr (ok, w') \<and> disk w' = disk w \<and>
           archives w' = archives w \<and>
           (posts w' = posts w \<and> \<not> ok \<or>
            (\<exists>r. posts w' = posts w @ [r] \<and> ok = transport_ok e r \<and>
                 req_file r = (case fp of None \<Rightarrow> None
                               | Some p \<Rightarrow> if isfile (disk w) p then Some (fn, p) else None)))"
proof -
  from build_query_Some [OF assms] obtain u where "build_query (url @ ''?'') data = Inr u" ..
  then show ?thesis
    by (cases fp) (auto simp: post_data_def Let_def)
qed

text \<open>
  Claim C7, at the input where it fails. With no access key configured, the \<open>data\<close> that
  \<open>upload_task_result\<close> hands to \<open>post_data\<close> holds \<open>None\<close> under \<open>key\<close>; \<open>post_data\<close> then
  raises \<open>TypeError\<close> past its boundary instead of returning a truth value, and sends nothing.
\<close>

theorem post_data_raises_without_key:
  "post_data e (w_url self @ ''workdone.php'') (task_data (self\<lparr>w_key := None\<rparr>) t) None ''result.zip'' w
   = Inl (TypeError, w)"
  using post_data_no_key' [of "self\<lparr>w_key := None\<rparr>" e "w_url self @ ''workdone.php''" t None "''result.zip''" w]
  by simp

lemma get_test_absent:
  "http_get (getwork_url self) = RequestFailed \<or> http_get (getwork_url self) = Response [] body
   \<Longrightarrow> get_test self http_get = Inr None"
  by (auto simp: get_test_def)

lemma get_test_object:
  assumes "http_get (getwork_url self) = Response text (Object job)" "text \<noteq> []"
  shows "get_test self http_get =
         (if j_test_id job = None \<or> j_browser job = None \<or> j_runs job = None then Inr None
          else Inr (Some (job\<lparr>j_iq := Some (case j_iq job of None \<Rightarrow> 30 | Some q \<Rightarrow> q),
                               j_pngss := Some (case j_pngss job of None \<Rightarrow> 0 | Some p \<Rightarrow> p)\<rparr>)))"
proof (cases "j_iq job")
  case None
  with assms show ?thesis
    by (cases "j_pngss job") (simp_all add: get_test_def Let_def DEFAULT_JPEG_QUALITY_def)
next
  case (Some q)
  with assms show ?thesis
    by (cases "j_pngss job") (simp_all add: get_test_def Let_def DEFAULT_JPEG_QUALITY_def)
qed

text \<open>
  Claim C4, at the inputs where it fails. A body that is not JSON makes \<open>response.json()\<close>
  raise \<open>ValueError\<close>, and the body \<open>null\<close> makes \<open>'iq' not in job\<close> raise \<open>TypeError\<close>;
  neither is a \<open>RequestException\<close>, so both leave \<open>get_test\<close> as exceptions instead of the
  answer that there is no job.
\<close>

theorem get_test_raises_on_bad_body:
  "get_test self (\<lambda>u. Response ''<html>'' Malformed) = Inl ValueError \<and>
   get_test self (\<lambda>u. Response ''null'' NotAContainer) = Inl TypeError"
  by (simp add: get_test_def)

lemma run_task_must_exit:
  "must_exit (agent_of (run_task self r job t a)) = must_exit a"
  by (auto simp: run_task_def agent_of_def split: option.splits sum.splits prod.splits)

lemma task_loop_must_exit:
  assumes "task_loop self r job t a = Some res"
  shows "must_exit (agent_of res) = must_exit a"
proof (rule task_loop.raw_induct
    [where P = "\<lambda>self r job t a res. must_exit (agent_of res) = must_exit a", OF _ assms], goal_cases)
  case (1 loop self r job t a res)
  show ?case
  proof (cases "run_task self r job t a")
    case (Inl e)
    with 1(2) have "res = Inl e" by simp
    with Inl run_task_must_exit [of self r job t a] show ?thesis by simp
  next
    case (Inr a1)
    with run_task_must_exit [of self r job t a] have m: "must_exit a1 = must_exit a"
      by (simp add: agent_of_def)
    show ?thesis
    proof (cases "get_task self (r_env r) job (disk (a_world a1))")
      case (Inl e)
      with 1(2) Inr m show ?thesis
        by (cases e) (auto simp: agent_of_def set_disk_def)
    next
      case g: (Inr p)
      obtain topt job' f' where p: "p = (topt, job', f')" by (cases p)
      show ?thesis
      proof (cases topt)
        case None
        with 1(2) Inr g p m show ?thesis by (auto simp: agent_of_def set_disk_def)
      next
        case (Some t')
        with 1(2) Inr g p
        have "loop self r job' t' (set_disk f' (a1\<lparr>current_test := Some job'\<rparr>)) = Some res" by simp
        from 1(1) [OF this] m show ?thesis by (simp add: set_disk_def)
      qed
    qed
  qed
qed

lemma deliver_none: "deliver 0 a = Inr a"
  by simp

lemma iteration_must_exit:
  assumes "r_sigint r = 0" "iteration self r a = Some a'"
  shows "must_exit a' = must_exit a"
proof -
  let ?inner = "(if r_is_ready r then
                  (case get_test self (r_http r) of
                     Inl x \<Rightarrow> Some (Inl (x, a))
                   | Inr None \<Rightarrow> Some (Inr (a\<lparr>current_test := None\<rparr>))
                   | Inr (Some job) \<Rightarrow>
                       (case get_task self (r_env r) job (disk (a_world a)) of
                          Inl (x, f) \<Rightarrow> Some (Inl (x, set_disk f (a\<lparr>current_test := Some job\<rparr>)))
                        | Inr (None, job', f') \<Rightarrow>
                            Some (Inr (set_disk f' (a\<lparr>current_test := Some job'\<rparr>)))
                        | Inr (Some t, job', f') \<Rightarrow>
                            task_loop self r job' t (set_disk f' (a\<lparr>current_test := Some job'\<rparr>))))
                else Some (Inr a))"
  have inner: "must_exit (agent_of res) = must_exit a" if "?inner = Some res" for res
    using that
    by (auto simp: agent_of_def set_disk_def dest!: task_loop_must_exit
          split: if_splits sum.splits option.splits prod.splits)
  from assms obtain res where res: "?inner = Some res"
    by (cases ?inner) (simp_all add: iteration_def iteration_body_def)
  from inner [OF res] assms res show ?thesis
    by (cases res) (auto simp: iteration_def iteration_body_def agent_of_def split: if_splits)
qed

lemma run_testing_Exited:
  "run_testing self a rs = Exited b \<Longrightarrow> must_exit b"
  by (induction rs arbitrary: a) (auto split: if_splits option.splits)

lemma no_signal_no_exit:
  "\<not> must_exit a \<Longrightarrow> list_all (\<lambda>r. r_sigint r = 0) rs \<Longrightarrow> run_testing self a rs \<noteq> Exited b"
proof (induction rs arbitrary: a)
  case Nil
  then show ?case by simp
next
  case (Cons r rs)
  show ?case
  proof (cases "iteration self r a")
    case None
    with Cons.prems show ?thesis by simp
  next
    case (Some a')
    from Cons.prems(2) have "r_sigint r = 0" by simp
    from iteration_must_exit [OF this Some] Cons.prems(1) have "\<not> must_exit a'" by simp
    from Cons.IH [OF this] Cons.prems Some show ?thesis by simp
  qed
qed


lemma task_data_error: "task_data self (t\<lparr>t_error := m\<rparr>) = task_data self t"
  by (simp add: task_data_def)

lemma task_data_keys: "map fst (task_data self t) = [''id'', ''location'', ''key'', ''run'', ''cached'']"
  by (simp add: task_data_def)

lemma run_task_invalid_browser:
  assumes "j_browser job = Some name" "r_get_browser r name = None"
  shows "run_task self r job t a =
         (case upload_task_result self (r_env r) (t\<lparr>t_error := Some (''Invalid browser - '' @ name)\<rparr>) (a_world a) of
            Inl (x, w2) \<Rightarrow> Inl (x, a\<lparr>a_world := w2,
                 upload_calls := upload_calls a @ [t\<lparr>t_error := Some (''Invalid browser - '' @ name)\<rparr>]\<rparr>)
          | Inr w2 \<Rightarrow> Inr (a\<lparr>a_world := w2,
                 upload_calls := upload_calls a @ [t\<lparr>t_error := Some (''Invalid browser - '' @ name)\<rparr>]\<rparr>))"
  using assms by (simp add: run_task_def del: append.simps split: sum.splits prod.splits)

text \<open>
  Claim C6, as the code has it. When no browser is registered under the job's browser
  name, one pass of the task loop stores the text \<open>Invalid browser - \<close> followed by the name
  in the task, runs nothing (what happens to the world is what the upload alone does to the
  world as it was), and calls \<open>upload_task_result\<close> exactly once, with that task. The metadata
  of the upload are the keys \<open>id\<close>, \<open>location\<close>, \<open>key\<close>, \<open>run\<close> and \<open>cached\<close>, the same
  with or without the error: the error is in the task, not in the metadata.
\<close>

theorem invalid_browser_still_uploads:
  assumes "j_browser job = Some name" "r_get_browser r name = None"
  shows "upload_calls (agent_of (run_task self r job t a))
           = upload_calls a @ [t\<lparr>t_error := Some (''Invalid browser - '' @ name)\<rparr>] \<and>
         map_sum (apsnd a_world) a_world (run_task self r job t a)
           = upload_task_result self (r_env r) (t\<lparr>t_error := Some (''Invalid browser - '' @ name)\<rparr>) (a_world a) \<and>
         task_data self (t\<lparr>t_error := Some (''Invalid browser - '' @ name)\<rparr>) = task_data self t \<and>
         map fst (task_data self t) = [''id'', ''location'', ''key'', ''run'', ''cached'']"
proof -
  let ?t = "t\<lparr>t_error := Some (''Invalid browser - '' @ name)\<rparr>"
  note rt = run_task_invalid_browser [OF assms, of self t a]
  have 1: "upload_calls (agent_of (run_task self r job t a)) = upload_calls a @ [?t]"
    unfolding rt by (cases "upload_task_result self (r_env r) ?t (a_world a)") (auto simp: agent_of_def)
  have 2: "map_sum (apsnd a_world) a_world (run_task self r job t a)
           = upload_task_result self (r_env r) ?t (a_world a)"
    unfolding rt by (cases "upload_task_result self (r_env r) ?t (a_world a)") auto
  from 1 2 show ?thesis by (simp add: task_data_error task_data_keys)
qed

theorem invalid_browser_still_uploads_witness:
  "j_browser example_job = Some ''Chrome'' \<and> r_get_browser example_round ''Chrome'' = None \<and>
   upload_calls (agent_of (run_task example_wpt example_round example_job example_task example_agent))
     = [example_task\<lparr>t_error := Some ''Invalid browser - Chrome''\<rparr>]"
  using invalid_browser_still_uploads [of example_job "''Chrome''" example_round example_wpt example_task example_agent]
  by (simp add: example_job_def example_round_def example_agent_def)

text \<open>
  Claim C6 as the specification words it fails: the task that is uploaded carries the
  error, the metadata sent with the upload do not.
\<close>

theorem error_not_in_metadata_counterexample:
  "t_error (last (upload_calls (agent_of (run_task example_wpt example_round example_job example_task example_agent))))
     = Some ''Invalid browser - Chrome'' \<and>
   ''error'' \<notin> set (map fst (task_data example_wpt
      (last (upload_calls (agent_of (run_task example_wpt example_round example_job example_task example_agent))))))"
proof -
  have jb: "j_browser example_job = Some ''Chrome''" by (simp add: example_job_def)
  have gb: "r_get_browser example_round ''Chrome'' = None" by (simp add: example_round_def)
  let ?t = "example_task\<lparr>t_error := Some (''Invalid browser - '' @ ''Chrome'')\<rparr>"
  note rt = run_task_invalid_browser [OF jb gb, of example_wpt example_task example_agent]
  have "upload_calls (agent_of (run_task example_wpt example_round example_job example_task example_agent))
        = upload_calls example_agent @ [?t]"
    unfolding rt
    by (cases "upload_task_result example_wpt (r_env example_round) ?t (a_world example_agent)")
       (auto simp: agent_of_def)
  then show ?thesis by (simp add: task_data_keys)
qed

lemma upload_result_disk:
  "upload_task_result self e t w = Inr w' \<Longrightarrow> \<exists>f. disk w' = cleanup self e t f"
  by (auto simp: upload_task_result_def Let_def split: sum.splits prod.splits)

lemma get_task_none_disk:
  assumes "get_task self e j f = Inr (None, j', f')"
  shows "f' = (if isdir f (w_workdir self) then rmtree_quiet e f (w_workdir self) else f)"
proof (cases "job_done j")
  case True
  with assms show ?thesis by (simp add: get_task_def alive_iff no_task_def)
next
  case False
  with assms obtain n where n: "j_runs j = Some n"
    by (cases "j_runs j") (simp_all add: get_task_def alive_iff Let_def)
  show ?thesis
  proof (cases "s_run (next_state j) \<le> n")
    case le: False
    with assms False n show ?thesis by (simp add: get_task_def alive_iff no_task_def Let_def)
  next
    case True
    from get_task_live [OF False n True assms] show ?thesis by simp
  qed
qed

lemmas eval_defs = upload_task_result_def package_files_def example_world_def example_disk_def
      example_task_def new_task_def example_wpt_def example_env_def Let_def isdir_def isfile_def getsize_def
      listdir_def task_data_def post_data_def quote_plus_value_def quote_plus_def quote_char_def
      always_safe_def create_zip_def add_member_def remove_file_def cleanup_def rmtree_quiet_def rmtree_def walk.simps
      path_under_def str_int_def locked_env_def video_world_def

text \<open>
  Claim C3, at an input where it fails. The task's directory holds \<open>a\<close> with 100001 bytes
  and \<open>b\<close> with 100000 bytes and no access key is configured. The individual upload of
  \<open>a\<close> raises \<open>TypeError\<close> in \<open>post_data\<close>; the upload ends there, with nothing posted, \<open>a\<close>
  still on disk and \<open>b\<close> in no archive.
\<close>

theorem small_file_not_batched_without_key:
  "upload_task_result (example_wpt\<lparr>w_key := None\<rparr>) example_env example_task example_world
   = Inl (TypeError, example_world)"
  by (simp add: eval_defs)

lemma upload_threshold_example:
  "upload_task_result example_wpt example_env example_task example_world =
   Inr \<lparr>disk = [([''work''], Dir), ([''work'', ''agent''], Dir)],
        posts = [\<lparr>req_url = ''http://server/work/resultimage.php?id=T1&location=Test&key=secret&run=1&cached=0&'',
                   req_file = Some (''a'', [''work'', ''agent'', ''T1.1.0'', ''a'']), req_timeout = Some 300\<rparr>,
                 \<lparr>req_url = ''http://server/work/workdone.php?id=T1&location=Test&key=secret&run=1&cached=0&'',
                   req_file = Some (''result.zip'', [''work'', ''agent'', ''T1.1.0'', ''result.zip'']),
                   req_timeout = Some 300\<rparr>],
        archives = [([''work'', ''agent'', ''T1.1.0'', ''result.zip''], [''b''])]\<rparr>"
  by (simp add: eval_defs)

lemma map_of_filter_neq:
  "map_of (filter (\<lambda>(q, n). q \<noteq> p) f) q' = (if q' = p then None else map_of f q')"
  by (induction f) auto

lemma remove_file_Inr:
  "remove_file e f p = Inr f' \<Longrightarrow> f' = filter (\<lambda>(q, n). q \<noteq> p) f"
  by (auto simp: remove_file_def split: if_splits)

lemma post_data_file:
  assumes "list_all (\<lambda>(k, v). v \<noteq> None) data" "isfile (disk w) p"
  shows "\<exists>ok w1. post_data e url data (Some p) fn w = Inr (ok, w1) \<and> disk w1 = disk w \<and>
           archives w1 = archives w \<and>
           (posts w1 = posts w \<and> \<not> ok \<or>
            (\<exists>r. posts w1 = posts w @ [r] \<and> ok = transport_ok e r \<and> req_file r = Some (fn, p)))"
  using post_data_returns [OF assms(1), of e url "Some p" fn w] assms(2) by simp

lemma large_inv_Nil: "large_inv dir [] nz w nz w"
  by (simp add: large_inv_def)

lemma large_inv_skip:
  assumes "large_inv dir rest nz w nz' w'" "\<not> isfile (disk w) (dir @ [name])"
  shows "large_inv dir (name # rest) nz w nz' w'"
proof -
  from assms(1) obtain ps zs where
    a: "posts w' = posts w @ ps" "nz' = nz @ zs" and
    b: "\<forall>r\<in>set ps. \<exists>name\<in>set rest. req_file r = Some (name, dir @ [name]) \<and>
              isfile (disk w) (dir @ [name]) \<and> 100000 < getsize (disk w) (dir @ [name])" and
    c: "\<forall>name\<in>set rest. isfile (disk w) (dir @ [name]) \<longrightarrow>
              (if 100000 < getsize (disk w) (dir @ [name])
               then dir @ [name] \<in> set zs \<or> \<not> isfile (disk w') (dir @ [name])
               else dir @ [name] \<in> set zs)" and
    d: "\<forall>q. map_of (disk w) q = None \<longrightarrow> map_of (disk w') q = None"
    unfolding large_inv_def by blast
  from b have b': "\<forall>r\<in>set ps. \<exists>n\<in>set (name # rest). req_file r = Some (n, dir @ [n]) \<and>
              isfile (disk w) (dir @ [n]) \<and> 100000 < getsize (disk w) (dir @ [n])"
    by fastforce
  from c assms(2) have c': "\<forall>n\<in>set (name # rest). isfile (disk w) (dir @ [n]) \<longrightarrow>
              (if 100000 < getsize (disk w) (dir @ [n])
               then dir @ [n] \<in> set zs \<or> \<not> isfile (disk w') (dir @ [n])
               else dir @ [n] \<in> set zs)"
    by simp
  from a b' c' d show ?thesis unfolding large_inv_def by blast
qed

lemma large_inv_batch:
  assumes "large_inv dir rest (nz @ [dir @ [name]]) w1 nz' w'"
    and w1: "disk w1 = disk w" "posts w1 = posts w @ qs"
    and qs: "\<forall>r\<in>set qs. req_file r = Some (name, dir @ [name]) \<and> 100000 < getsize (disk w) (dir @ [name])"
    and isf: "isfile (disk w) (dir @ [name])"
  shows "large_inv dir (name # rest) nz w nz' w'"
proof -
  from assms(1) obtain ps zs where
    a: "posts w' = posts w1 @ ps" "nz' = (nz @ [dir @ [name]]) @ zs" and
    b: "\<forall>r\<in>set ps. \<exists>name\<in>set rest. req_file r = Some (name, dir @ [name]) \<and>
              isfile (disk w1) (dir @ [name]) \<and> 100000 < getsize (disk w1) (dir @ [name])" and
    c: "\<forall>name\<in>set rest. isfile (disk w1) (dir @ [name]) \<longrightarrow>
              (if 100000 < getsize (disk w1) (dir @ [name])
               then dir @ [name] \<in> set zs \<or> \<not> isfile (disk w') (dir @ [name])
               else dir @ [name] \<in> set zs)" and
    d: "\<forall>q. map_of (disk w1) q = None \<longrightarrow> map_of (disk w') q = None"
    unfolding large_inv_def by blast
  have a': "posts w' = posts w @ (qs @ ps)" "nz' = nz @ ((dir @ [name]) # zs)"
    using a w1 by simp_all
  from b qs isf have b': "\<forall>r\<in>set (qs @ ps). \<exists>n\<in>set (name # rest). req_file r = Some (n, dir @ [n]) \<and>
              isfile (disk w) (dir @ [n]) \<and> 100000 < getsize (disk w) (dir @ [n])"
    unfolding w1 by fastforce
  from c have c': "\<forall>n\<in>set (name # rest). isfile (disk w) (dir @ [n]) \<longrightarrow>
              (if 100000 < getsize (disk w) (dir @ [n])
               then dir @ [n] \<in> set ((dir @ [name]) # zs) \<or> \<not> isfile (disk w') (dir @ [n])
               else dir @ [n] \<in> set ((dir @ [name]) # zs))"
    unfolding w1 by auto
  from d have d': "\<forall>q. map_of (disk w) q = None \<longrightarrow> map_of (disk w') q = None"
    unfolding w1 .
  from a' b' c' d' show ?thesis unfolding large_inv_def by blast
qed

lemma large_inv_removed:
  assumes "large_inv dir rest nz w2 nz' w'"
    and w2: "disk w2 = filter (\<lambda>(q, n). q \<noteq> dir @ [name]) (disk w)" "posts w2 = posts w @ [r]"
    and r: "req_file r = Some (name, dir @ [name])"
    and isf: "isfile (disk w) (dir @ [name])" "100000 < getsize (disk w) (dir @ [name])"
    and nin: "name \<notin> set rest"
  shows "large_inv dir (name # rest) nz w nz' w'"
proof -
  from assms(1) obtain ps zs where
    a: "posts w' = posts w2 @ ps" "nz' = nz @ zs" and
    b: "\<forall>r\<in>set ps. \<exists>name\<in>set rest. req_file r = Some (name, dir @ [name]) \<and>
              isfile (disk w2) (dir @ [name]) \<and> 100000 < getsize (disk w2) (dir @ [name])" and
    c: "\<forall>name\<in>set rest. isfile (disk w2) (dir @ [name]) \<longrightarrow>
              (if 100000 < getsize (disk w2) (dir @ [name])
               then dir @ [name] \<in> set zs \<or> \<not> isfile (disk w') (dir @ [name])
               else dir @ [name] \<in> set zs)" and
    d: "\<forall>q. map_of (disk w2) q = None \<longrightarrow> map_of (disk w') q = None"
    unfolding large_inv_def by blast
  have same: "isfile (disk w2) (dir @ [n]) = isfile (disk w) (dir @ [n])"
             "getsize (disk w2) (dir @ [n]) = getsize (disk w) (dir @ [n])" if "n \<in> set rest" for n
    using that nin by (auto simp: w2 isfile_def getsize_def map_of_filter_neq)
  have gone: "\<not> isfile (disk w') (dir @ [name])"
    using d by (simp add: w2 map_of_filter_neq isfile_def)
  have a': "posts w' = posts w @ (r # ps)" using a w2 by simp
  from b r isf have b': "\<forall>r\<in>set (r # ps). \<exists>n\<in>set (name # rest). req_file r = Some (n, dir @ [n]) \<and>
              isfile (disk w) (dir @ [n]) \<and> 100000 < getsize (disk w) (dir @ [n])"
    using same by fastforce
  from c gone have c': "\<forall>n\<in>set (name # rest). isfile (disk w) (dir @ [n]) \<longrightarrow>
              (if 100000 < getsize (disk w) (dir @ [n])
               then dir @ [n] \<in> set zs \<or> \<not> isfile (disk w') (dir @ [n])
               else dir @ [n] \<in> set zs)"
    using same isf by auto
  from d have d': "\<forall>q. map_of (disk w) q = None \<longrightarrow> map_of (disk w') q = None"
    by (simp add: w2 map_of_filter_neq)
  from a' a(2) b' c' d' show ?thesis unfolding large_inv_def by blast
qed

lemma upload_large_inv:
  assumes ok: "list_all (\<lambda>(k, v). v \<noteq> None) data"
  shows "distinct names \<Longrightarrow> upload_large e url data dir names nz w = Inr (nz', w') \<Longrightarrow>
         large_inv dir names nz w nz' w'"
proof (induction names arbitrary: nz w)
  case Nil
  then show ?case by (simp add: large_inv_Nil)
next
  case (Cons name rest)
  let ?P = "dir @ [name]"
  from Cons.prems(1) have nin: "name \<notin> set rest" and dist: "distinct rest" by simp_all
  show ?case
  proof (cases "isfile (disk w) ?P")
    case False
    with Cons.prems(2) have "upload_large e url data dir rest nz w = Inr (nz', w')"
      by (simp add: Let_def)
    from Cons.IH [OF dist this] False show ?thesis by (rule large_inv_skip)
  next
    case isf: True
    show ?thesis
    proof (cases "100000 < getsize (disk w) ?P")
      case False
      with Cons.prems(2) isf have "upload_large e url data dir rest (nz @ [?P]) w = Inr (nz', w')"
        by (simp add: Let_def)
      from Cons.IH [OF dist this] have "large_inv dir rest (nz @ [?P]) w nz' w'" .
      then show ?thesis
        by (rule large_inv_batch [where qs = "[]"]) (simp_all add: isf)
    next
      case big: True
      from post_data_file [OF ok isf, of e "url @ ''resultimage.php''" name]
      obtain okk w1 where
        pd: "post_data e (url @ ''resultimage.php'') data (Some ?P) name w = Inr (okk, w1)" and
        d1: "disk w1 = disk w" and
        ps: "posts w1 = posts w \<and> \<not> okk \<or>
             (\<exists>r. posts w1 = posts w @ [r] \<and> okk = transport_ok e r \<and> req_file r = Some (name, ?P))"
        by blast
      show ?thesis
      proof (cases okk)
        case True
        with ps obtain r where r: "posts w1 = posts w @ [r]" "req_file r = Some (name, ?P)" by blast
        from Cons.prems(2) isf big pd True obtain f where
          rf: "remove_file e (disk w1) ?P = Inr f" and
          rec: "upload_large e url data dir rest nz (w1\<lparr>disk := f\<rparr>) = Inr (nz', w')"
          by (cases "remove_file e (disk w1) ?P") (simp_all add: Let_def)
        from remove_file_Inr [OF rf] d1 have f: "f = filter (\<lambda>(q, n). q \<noteq> ?P) (disk w)" by simp
        from Cons.IH [OF dist rec] have "large_inv dir rest nz (w1\<lparr>disk := f\<rparr>) nz' w'" .
        then show ?thesis
          by (rule large_inv_removed [where r = r]) (simp_all add: f r isf big nin)
      next
        case False
        with Cons.prems(2) isf big pd have rec: "upload_large e url data dir rest (nz @ [?P]) w1 = Inr (nz', w')"
          by (simp add: Let_def)
        from Cons.IH [OF dist rec] have inv: "large_inv dir rest (nz @ [?P]) w1 nz' w'" .
        from ps show ?thesis
        proof
          assume "posts w1 = posts w \<and> \<not> okk"
          with inv show ?thesis
            by (intro large_inv_batch [where qs = "[]" and ?w1.0 = w1]) (simp_all add: d1 isf)
        next
          assume "\<exists>r. posts w1 = posts w @ [r] \<and> okk = transport_ok e r \<and> req_file r = Some (name, ?P)"
          then obtain r where "posts w1 = posts w @ [r]" "req_file r = Some (name, ?P)" by blast
          with inv show ?thesis
            by (intro large_inv_batch [where qs = "[r]" and ?w1.0 = w1]) (simp_all add: d1 isf big)
        qed
      qed
    qed
  qed
qed

lemma distinct_listdir: "distinct (listdir f p)"
  by (simp add: listdir_def)

lemma upload_large_threshold:
  assumes "list_all (\<lambda>(k, v). v \<noteq> None) data"
    and "upload_large e url data dir (listdir (disk w) dir) [] w = Inr (needs_zip, w')"
    and "name \<in> set (listdir (disk w) dir)" "isfile (disk w) (dir @ [name])"
  shows "if 100000 < getsize (disk w) (dir @ [name])
         then dir @ [name] \<in> set needs_zip \<or> \<not> isfile (disk w') (dir @ [name])
         else dir @ [name] \<in> set needs_zip \<and>
              (\<forall>r\<in>set (drop (length (posts w)) (posts w')). req_file r \<noteq> Some (name, dir @ [name]))"
proof -
  from upload_large_inv [OF assms(1) distinct_listdir assms(2)] obtain ps zs where
    a: "posts w' = posts w @ ps" "needs_zip = [] @ zs" and
    b: "\<forall>r\<in>set ps. \<exists>n\<in>set (listdir (disk w) dir). req_file r = Some (n, dir @ [n]) \<and>
              isfile (disk w) (dir @ [n]) \<and> 100000 < getsize (disk w) (dir @ [n])" and
    c: "\<forall>n\<in>set (listdir (disk w) dir). isfile (disk w) (dir @ [n]) \<longrightarrow>
              (if 100000 < getsize (disk w) (dir @ [n])
               then dir @ [n] \<in> set zs \<or> \<not> isfile (disk w') (dir @ [n])
               else dir @ [n] \<in> set zs)"
    unfolding large_inv_def by blast
  from b have small: "\<forall>r\<in>set ps. req_file r \<noteq> Some (name, dir @ [name])"
    if "\<not> 100000 < getsize (disk w) (dir @ [name])"
    using that by fastforce
  from c assms(3,4) a small show ?thesis by auto
qed

lemma task_data_ok: "w_key self \<noteq> None \<Longrightarrow> list_all (\<lambda>(k, v). v \<noteq> None) (task_data self t)"
  by (simp add: task_data_def)

lemma upload_video_disk:
  assumes "list_all (\<lambda>(k, v). v \<noteq> None) data"
  shows "upload_video e url data pre vd names w = Inr w1 \<Longrightarrow> disk w1 = disk w"
proof (induction names arbitrary: w)
  case Nil
  then show ?case by simp
next
  case (Cons name rest)
  show ?case
  proof (cases "isfile (disk w) (vd @ [name])")
    case False
    with Cons show ?thesis by (simp add: Let_def)
  next
    case True
    from post_data_file [OF assms True, of e "url @ ''resultimage.php''" "pre @ name"]
    obtain okk w2 where
      "post_data e (url @ ''resultimage.php'') data (Some (vd @ [name])) (pre @ name) w = Inr (okk, w2)"
      "disk w2 = disk w" by blast
    with Cons True show ?thesis by (simp add: Let_def)
  qed
qed

lemma add_member_map_of:
  "map_of (add_member zp name as) zp = map_option (\<lambda>ms. ms @ [name]) (map_of as zp)"
  by (induction as) (auto simp: add_member_def)

lemma zip_write_members:
  "zip_write e zp files w = Inr w' \<Longrightarrow> map_of (archives w) zp = Some ms \<Longrightarrow>
   map_of (archives w') zp = Some (ms @ map last files)"
proof (induction files arbitrary: w ms)
  case Nil
  then show ?case by simp
next
  case (Cons p rest)
  let ?w1 = "w\<lparr>archives := add_member zp (last p) (archives w)\<rparr>"
  from Cons.prems(1) obtain f where
    "remove_file e (disk w) p = Inr f" and
    rec: "zip_write e zp rest (?w1\<lparr>disk := f\<rparr>) = Inr w'"
    by (cases "remove_file e (disk w) p") (auto simp: Let_def split: if_splits)
  have "map_of (archives (?w1\<lparr>disk := f\<rparr>)) zp = Some (ms @ [last p])"
    using Cons.prems(2) by (simp add: add_member_map_of)
  from Cons.IH [OF rec this] show ?case by simp
qed

lemma create_zip_empty: "create_zip zp w = Inr w3 \<Longrightarrow> map_of (archives w3) zp = Some []"
  by (auto simp: create_zip_def split: if_splits)

lemma small_file_batched:
  assumes key: "w_key self \<noteq> None"
    and pf: "package_files self e t w = Inr (zp, w')"
    and dir: "isdir (disk w) (t_dir t)"
    and name: "name \<in> set (listdir (disk w) (t_dir t))" "isfile (disk w) (t_dir t @ [name])"
    and small: "getsize (disk w) (t_dir t @ [name]) \<le> 100000"
  shows "\<exists>ms. zp = Some (t_dir t @ [''result.zip'']) \<and>
           map_of (archives w') (t_dir t @ [''result.zip'']) = Some ms \<and> name \<in> set ms"
proof -
  let ?vd = "t_dir t @ [''video'']"
  let ?zp = "t_dir t @ [''result.zip'']"
  let ?v = "(if isdir (disk w) ?vd
            then upload_video e (w_url self) (task_data self t) (t_prefix t) ?vd (listdir (disk w) ?vd) w
            else Inr w)"
  note ok = task_data_ok [OF key, of t]
  from pf dir obtain w1 where v: "?v = Inr w1"
    by (cases ?v) (simp_all add: package_files_def Let_def)
  then have d1: "disk w1 = disk w"
    using upload_video_disk [OF ok] by (auto split: if_splits)
  let ?l = "upload_large e (w_url self) (task_data self t) (t_dir t) (listdir (disk w1) (t_dir t)) [] w1"
  from pf dir v obtain nz w2 where l: "?l = Inr (nz, w2)"
    by (cases ?l) (auto simp: package_files_def Let_def)
  from upload_large_threshold [OF ok l, of name] name small
  have mem: "t_dir t @ [name] \<in> set nz" by (simp add: d1)
  then have ne: "nz \<noteq> []" by auto
  from pf dir v l ne obtain w3 where c: "create_zip ?zp w2 = Inr w3"
    by (cases "create_zip ?zp w2") (simp_all add: package_files_def Let_def)
  from pf dir v l ne c obtain w4 where z: "zip_write e ?zp nz w3 = Inr w4"
    by (cases "zip_write e ?zp nz w3") (simp_all add: package_files_def Let_def)
  from pf dir v l ne c z have res: "zp = Some ?zp" "w' = w4"
    by (simp_all add: package_files_def Let_def)
  from zip_write_members [OF z create_zip_empty [OF c]]
  have "map_of (archives w4) ?zp = Some (map last nz)" by simp
  moreover from mem have "name \<in> set (map last nz)" by force
  ultimately show ?thesis using res by simp
qed

lemma get_task_decreases:
  assumes "get_task self e j f = Inr (Some t, j', f')"
  shows "tasks_left j' < tasks_left j"
proof -
  have alive: "\<not> job_done j" using get_task_dead [OF _ assms] by auto
  with assms obtain n where n: "j_runs j = Some n"
    by (cases "j_runs j") (simp_all add: get_task_def alive_iff Let_def)
  have le: "s_run (next_state j) \<le> n" using get_task_past [OF alive n _ assms] by auto
  from get_task_live [OF alive n le assms] obtain d where
    j': "j' = j\<lparr>j_current_state := Some ((next_state j)\<lparr>s_done := d\<rparr>)\<rparr>" by blast
  show ?thesis
  proof (cases "j_current_state j")
    case None
    with le n show ?thesis by (simp add: j' tasks_left_def next_state_def)
  next
    case (Some s)
    with le n show ?thesis
      by (auto simp: j' tasks_left_def next_state_def split: if_splits)
  qed
qed

lemma task_loop_terminates: "task_loop self r job t a \<noteq> None"
proof (induction "tasks_left job" arbitrary: job t a rule: less_induct)
  case less
  show ?case
  proof (cases "run_task self r job t a")
    case (Inl x)
    then show ?thesis by (simp add: task_loop.simps)
  next
    case (Inr a1)
    show ?thesis
    proof (cases "get_task self (r_env r) job (disk (a_world a1))")
      case (Inl x)
      with Inr show ?thesis by (cases x) (simp add: task_loop.simps)
    next
      case g: (Inr p)
      obtain topt job' f' where p: "p = (topt, job', f')" by (cases p)
      show ?thesis
      proof (cases topt)
        case None
        with Inr g p show ?thesis by (simp add: task_loop.simps)
      next
        case (Some t')
        with g p have "get_task self (r_env r) job (disk (a_world a1)) = Inr (Some t', job', f')" by simp
        from get_task_decreases [OF this] have "tasks_left job' < tasks_left job" .
        from less [OF this] Inr g p Some show ?thesis
          by (subst task_loop.simps) simp
      qed
    qed
  qed
qed

lemma iteration_terminates: "iteration self r a \<noteq> None"
  by (auto simp: iteration_def iteration_body_def task_loop_terminates
        split: sum.splits option.splits prod.splits if_splits)

lemma run_testing_not_hung: "run_testing self a rs \<noteq> Hung"
  by (induction rs arbitrary: a) (auto simp: iteration_terminates split: option.splits)

text \<open>
  Claim C9. When the body of one pass of the loop raises, whatever the exception, the
  loop records it and goes on with the next pass from the state the exception left. The
  loop ends only when it finds \<open>must_exit\<close> set, and as long as no interrupt arrives
  \<open>must_exit\<close> stays unset, so the loop does not end. No pass of the loop runs forever.
\<close>

theorem loop_survives_exceptions:
  "(iteration_body self r a = Some (Inl (x, a')) \<and> \<not> must_exit a \<longrightarrow>
      run_testing self a (r # rs) = run_testing self (a'\<lparr>caught := caught a' @ [x]\<rparr>) rs) \<and>
   (run_testing self a rs = Exited b \<longrightarrow> must_exit b) \<and>
   (\<not> must_exit a \<and> list_all (\<lambda>r. r_sigint r = 0) rs \<longrightarrow> run_testing self a rs \<noteq> Exited b) \<and>
   run_testing self a rs \<noteq> Hung"
  using run_testing_Exited [of self a rs b] no_signal_no_exit [of a rs self b]
    run_testing_not_hung [of self a rs]
  by (auto simp: iteration_def)

theorem loop_survives_exceptions_witness:
  "iteration_body example_wpt example_round example_agent = Some (Inl (TypeError, example_agent)) \<and>
   \<not> must_exit example_agent \<and>
   run_testing example_wpt example_agent [example_round, example_round\<lparr>r_sigint := 1, r_is_ready := False\<rparr>]
     = Exited (example_agent\<lparr>must_exit := True, caught := [TypeError], sleeps := 1\<rparr>) \<and>
   run_testing example_wpt example_agent [example_round, example_round] \<noteq> Exited example_agent"
proof -
  have b: "iteration_body example_wpt example_round example_agent = Some (Inl (TypeError, example_agent))"
    by (simp add: iteration_body_def example_round_def get_test_def)
  have m: "\<not> must_exit example_agent" by (simp add: example_agent_def)
  have rest: "run_testing example_wpt (example_agent\<lparr>caught := caught example_agent @ [TypeError]\<rparr>)
       [example_round\<lparr>r_sigint := 1, r_is_ready := False\<rparr>]
     = Exited (example_agent\<lparr>must_exit := True, caught := [TypeError], sleeps := 1\<rparr>)"
    by (simp add: iteration_def iteration_body_def example_round_def example_agent_def signal_handler_def)
  have q: "list_all (\<lambda>r. r_sigint r = 0) [example_round, example_round]"
    by (simp add: example_round_def)
  from loop_survives_exceptions [of example_wpt example_round example_agent TypeError example_agent
      "[example_round\<lparr>r_sigint := 1, r_is_ready := False\<rparr>]"] b m rest
  have 1: "run_testing example_wpt example_agent [example_round, example_round\<lparr>r_sigint := 1, r_is_ready := False\<rparr>]
     = Exited (example_agent\<lparr>must_exit := True, caught := [TypeError], sleeps := 1\<rparr>)"
    by simp
  from loop_survives_exceptions [of example_wpt example_round example_agent TypeError example_agent
      "[example_round, example_round]" example_agent] m q
  have 2: "run_testing example_wpt example_agent [example_round, example_round] \<noteq> Exited example_agent"
    by blast
  from b m 1 2 show ?thesis by blast
qed

lemma post_data_disk:
  "post_data e url data fp fn w = Inr (ok, w') \<Longrightarrow> disk w' = disk w"
  "post_data e url data fp fn w = Inl (x, w') \<Longrightarrow> w' = w"
  by (auto simp: post_data_def Let_def split: sum.splits option.splits if_splits)

lemma upload_video_disk_any:
  "(upload_video e url data pre vd names w = Inr w' \<longrightarrow> disk w' = disk w) \<and>
   (upload_video e url data pre vd names w = Inl (x, w') \<longrightarrow> disk w' = disk w)"
proof (induction names arbitrary: w)
  case Nil
  show ?case by simp
next
  case (Cons name rest)
  show ?case
  proof (cases "isfile (disk w) (vd @ [name])")
    case False
    with Cons [of w] show ?thesis by (simp add: Let_def)
  next
    case True
    show ?thesis
    proof (cases "post_data e (url @ ''resultimage.php'') data (Some (vd @ [name])) (pre @ name) w")
      case (Inl a)
      then obtain y w1 where p: "post_data e (url @ ''resultimage.php'') data (Some (vd @ [name])) (pre @ name) w = Inl (y, w1)"
        by (cases a) simp
      from post_data_disk(2) [OF p] p True show ?thesis by (simp add: Let_def)
    next
      case (Inr b)
      then obtain ok w1 where p: "post_data e (url @ ''resultimage.php'') data (Some (vd @ [name])) (pre @ name) w = Inr (ok, w1)"
        by (cases b) simp
      from post_data_disk(1) [OF p] p True Cons [of w1] show ?thesis by (simp add: Let_def)
    qed
  qed
qed

lemma isdir_filter_file:
  "isfile f p \<Longrightarrow> isdir (filter (\<lambda>(q, n). q \<noteq> p) f) D = isdir f D"
  by (auto simp: isdir_def isfile_def map_of_filter_neq split: option.splits node.splits)

lemma remove_file_isdir: "remove_file e f p = Inr f' \<Longrightarrow> isdir f' D = isdir f D"
  by (auto simp: remove_file_def isdir_filter_file split: if_splits)

lemma upload_large_isdir:
  "(upload_large e url data dir names nz w = Inr (nz', w') \<longrightarrow> isdir (disk w') D = isdir (disk w) D) \<and>
   (upload_large e url data dir names nz w = Inl (x, w') \<longrightarrow> isdir (disk w') D = isdir (disk w) D)"
proof (induction names arbitrary: nz w)
  case Nil
  show ?case by simp
next
  case (Cons name rest)
  let ?P = "dir @ [name]"
  show ?case
  proof (cases "isfile (disk w) ?P")
    case False
    with Cons [of nz w] show ?thesis by (simp add: Let_def)
  next
    case isf: True
    show ?thesis
    proof (cases "100000 < getsize (disk w) ?P")
      case False
      with isf Cons [of "nz @ [?P]" w] show ?thesis by (simp add: Let_def)
    next
      case big: True
      show ?thesis
      proof (cases "post_data e (url @ ''resultimage.php'') data (Some ?P) name w")
        case (Inl a)
        then obtain y w1 where p: "post_data e (url @ ''resultimage.php'') data (Some ?P) name w = Inl (y, w1)"
          by (cases a) simp
        from post_data_disk(2) [OF p] p isf big show ?thesis by (simp add: Let_def)
      next
        case (Inr b)
        then obtain ok w1 where p: "post_data e (url @ ''resultimage.php'') data (Some ?P) name w = Inr (ok, w1)"
          by (cases b) simp
        note d = post_data_disk(1) [OF p]
        show ?thesis
        proof (cases ok)
          case False
          with p isf big d Cons [of "nz @ [?P]" w1] show ?thesis by (simp add: Let_def)
        next
          case True
          show ?thesis
          proof (cases "remove_file e (disk w1) ?P")
            case (Inl y)
            with p isf big d True show ?thesis by (auto simp: Let_def)
          next
            case (Inr f)
            from remove_file_isdir [OF Inr] d have "isdir f D = isdir (disk w) D" by simp
            with Inr p isf big True Cons [of nz "w1\<lparr>disk := f\<rparr>"] show ?thesis by (simp add: Let_def)
          qed
        qed
      qed
    qed
  qed
qed

lemma map_of_replace:
  "map_of (filter (\<lambda>(q, n). q \<noteq> p) f @ [(p, v)]) q' = (if q' = p then Some v else map_of f q')"
  by (induction f) auto

lemma create_zip_isdir:
  "(create_zip zp w = Inr w' \<longrightarrow> isdir (disk w') D = isdir (disk w) D) \<and>
   (create_zip zp w = Inl (x, w') \<longrightarrow> isdir (disk w') D = isdir (disk w) D)"
  by (auto simp: create_zip_def isdir_def map_of_replace simp del: map_of_append split: if_splits)

lemma zip_write_isdir:
  "(zip_write e zp files w = Inr w' \<longrightarrow> isdir (disk w') D = isdir (disk w) D) \<and>
   (zip_write e zp files w = Inl (x, w') \<longrightarrow> isdir (disk w') D = isdir (disk w) D)"
proof (induction files arbitrary: w)
  case Nil
  show ?case by simp
next
  case (Cons p rest)
  let ?w1 = "w\<lparr>archives := add_member zp (last p) (archives w)\<rparr>"
  show ?case
  proof (cases "isfile (disk w) p")
    case False
    then show ?thesis by simp
  next
    case True
    show ?thesis
    proof (cases "remove_file e (disk w) p")
      case (Inl y)
      with True show ?thesis by (auto simp: Let_def)
    next
      case (Inr f)
      from remove_file_isdir [OF Inr] have "isdir f D = isdir (disk w) D" .
      with Inr True Cons [of "?w1\<lparr>disk := f\<rparr>"] show ?thesis by (simp add: Let_def)
    qed
  qed
qed

lemma package_files_isdir:
  "(package_files self e t w = Inr (zp, w') \<longrightarrow> isdir (disk w') D = isdir (disk w) D) \<and>
   (package_files self e t w = Inl (x, w') \<longrightarrow> isdir (disk w') D = isdir (disk w) D)"
proof (cases "isdir (disk w) (t_dir t)")
  case False
  then show ?thesis by (auto simp: package_files_def)
next
  case dir: True
  let ?vd = "t_dir t @ [''video'']"
  let ?zp = "t_dir t @ [''result.zip'']"
  let ?v = "(if isdir (disk w) ?vd
            then upload_video e (w_url self) (task_data self t) (t_prefix t) ?vd (listdir (disk w) ?vd) w
            else Inr w)"
  show ?thesis
  proof (cases ?v)
    case (Inl a)
    then obtain y w1 where v: "?v = Inl (y, w1)" by (cases a) simp
    then have "disk w1 = disk w"
      using upload_video_disk_any [where e = e and url = "w_url self" and data = "task_data self t" and pre = "t_prefix t" and vd = ?vd and names = "listdir (disk w) ?vd" and w = w and w' = w1 and x = y]
      by (simp split: if_splits)
    with dir v show ?thesis by (auto simp: package_files_def Let_def)
  next
    case (Inr w1)
    then have d1: "disk w1 = disk w"
      using upload_video_disk_any [where e = e and url = "w_url self" and data = "task_data self t" and pre = "t_prefix t" and vd = ?vd and names = "listdir (disk w) ?vd" and w = w and w' = w1]
      by (simp split: if_splits)
    let ?l = "upload_large e (w_url self) (task_data self t) (t_dir t) (listdir (disk w1) (t_dir t)) [] w1"
    show ?thesis
    proof (cases ?l)
      case (Inl a)
      then obtain y w2 where l: "?l = Inl (y, w2)" by (cases a) simp
      with upload_large_isdir [where e = e and url = "w_url self" and data = "task_data self t" and dir = "t_dir t" and names = "listdir (disk w1) (t_dir t)" and nz = "[]" and w = w1 and w' = w2 and D = D and x = y] d1
      have "isdir (disk w2) D = isdir (disk w) D" by simp
      with dir Inr l show ?thesis by (auto simp: package_files_def Let_def)
    next
      case (Inr b)
      then obtain nz w2 where l: "?l = Inr (nz, w2)" by (cases b) simp
      with upload_large_isdir [where e = e and url = "w_url self" and data = "task_data self t" and dir = "t_dir t" and names = "listdir (disk w1) (t_dir t)" and nz = "[]" and w = w1 and nz' = nz and w' = w2 and D = D] d1
      have d2: "isdir (disk w2) D = isdir (disk w) D" by simp
      show ?thesis
      proof (cases "nz = []")
        case True
        with dir \<open>?v = Inr w1\<close> l d2 show ?thesis by (auto simp: package_files_def Let_def)
      next
        case ne: False
        show ?thesis
        proof (cases "create_zip ?zp w2")
          case (Inl a)
          then obtain y w3 where c: "create_zip ?zp w2 = Inl (y, w3)" by (cases a) simp
          with create_zip_isdir [where zp = ?zp and w = w2 and w' = w3 and D = D and x = y] d2 have "isdir (disk w3) D = isdir (disk w) D" by simp
          with dir \<open>?v = Inr w1\<close> l ne c show ?thesis by (auto simp: package_files_def Let_def)
        next
          case (Inr w3)
          with create_zip_isdir [where zp = ?zp and w = w2 and w' = w3 and D = D] d2 have d3: "isdir (disk w3) D = isdir (disk w) D" by simp
          from dir \<open>?v = Inr w1\<close> l ne Inr
          have pf: "package_files self e t w =
              (case zip_write e ?zp nz w3 of Inl x \<Rightarrow> Inl x | Inr w4 \<Rightarrow> Inr (Some ?zp, w4))"
            by (simp add: package_files_def Let_def)
          show ?thesis
          proof (cases "zip_write e ?zp nz w3")
            case (Inl a)
            then obtain y w4 where z: "zip_write e ?zp nz w3 = Inl (y, w4)" by (cases a) simp
            with zip_write_isdir [where e = e and zp = ?zp and files = nz and w = w3 and w' = w4 and D = D and x = y] d3 have "isdir (disk w4) D = isdir (disk w) D" by simp
            with pf z show ?thesis by auto
          next
            case (Inr w4)
            with zip_write_isdir [where e = e and zp = ?zp and files = nz and w = w3 and w' = w4 and D = D] d3 have "isdir (disk w4) D = isdir (disk w) D" by simp
            with pf Inr show ?thesis by auto
          qed
        qed
      qed
    qed
  qed
qed

lemma upload_raise_keeps_dirs:
  assumes "upload_task_result self e t w = Inl (x, w')"
  shows "isdir (disk w') D = isdir (disk w) D"
proof (cases "package_files self e t w")
  case (Inl a)
  with assms have "package_files self e t w = Inl (x, w')" by (simp add: upload_task_result_def)
  with package_files_isdir [where self = self and e = e and t = t and w = w and w' = w' and D = D and x = x] show ?thesis by simp
next
  case (Inr b)
  then obtain zp w5 where p: "package_files self e t w = Inr (zp, w5)" by (cases b) simp
  with package_files_isdir [where self = self and e = e and t = t and w = w and zp = zp and w' = w5 and D = D] have d: "isdir (disk w5) D = isdir (disk w) D" by simp
  let ?data = "if t_done t then task_data self t @ [(''done'', Some ''1'')] else task_data self t"
  from assms p have "post_data e (w_url self @ ''workdone.php'') ?data zp ''result.zip'' w5 = Inl (x, w')"
    by (cases "post_data e (w_url self @ ''workdone.php'') ?data zp ''result.zip'' w5")
       (auto simp: upload_task_result_def Let_def split: if_splits)
  from post_data_disk(2) [OF this] d show ?thesis by simp
qed

lemma delete_along_outcome:
  "\<exists>S. (case delete_along e f qs of Inl (x, f') \<Rightarrow> f' | Inr f' \<Rightarrow> f') = filter (\<lambda>(r, n). r \<notin> S) f
       \<and> (\<forall>q\<in>S. can_delete e q)"
proof (induction qs arbitrary: f)
  case Nil
  have "f = filter (\<lambda>(r, n). r \<notin> {}) f" by (simp add: case_prod_unfold)
  then show ?case by (intro exI [of _ "{}"]) simp
next
  case (Cons q qs)
  show ?case
  proof (cases "can_delete e q")
    case False
    have "f = filter (\<lambda>(r, n). r \<notin> {}) f" by (simp add: case_prod_unfold)
    with False show ?thesis by (intro exI [of _ "{}"]) simp
  next
    case True
    from Cons [of "filter (\<lambda>(r, n). r \<noteq> q) f"] obtain S where
      S: "(case delete_along e (filter (\<lambda>(r, n). r \<noteq> q) f) qs of Inl (x, f') \<Rightarrow> f' | Inr f' \<Rightarrow> f')
            = filter (\<lambda>(r, n). r \<notin> S) (filter (\<lambda>(r, n). r \<noteq> q) f)" "\<forall>q\<in>S. can_delete e q"
      by blast
    from S(1) True have "(case delete_along e f (q # qs) of Inl (x, f') \<Rightarrow> f' | Inr f' \<Rightarrow> f')
        = filter (\<lambda>(r, n). r \<notin> insert q S) f"
      by (simp only: delete_along.simps if_True filter_filter_notin)
    with S(2) True show ?thesis by (intro exI [of _ "insert q S"]) simp
  qed
qed

lemma rmtree_quiet_keeps:
  assumes "\<not> can_delete e D"
  shows "isdir (rmtree_quiet e f p) D = isdir f D"
proof -
  from delete_along_outcome [of e f "walk f p"] obtain S where
    S: "rmtree_quiet e f p = filter (\<lambda>(r, n). r \<notin> S) f" "\<forall>q\<in>S. can_delete e q"
    unfolding rmtree_quiet_def rmtree_def by blast
  with assms have "D \<notin> S" by blast
  with S(1) show ?thesis by (simp add: isdir_def map_of_filter_notin)
qed

lemma rmtree_quiet_shrinks: "\<not> isdir f D \<Longrightarrow> \<not> isdir (rmtree_quiet e f p) D"
proof -
  assume a: "\<not> isdir f D"
  from delete_along_outcome [of e f "walk f p"] obtain S where
    S: "rmtree_quiet e f p = filter (\<lambda>(r, n). r \<notin> S) f"
    unfolding rmtree_quiet_def rmtree_def by blast
  with a show ?thesis by (simp add: not_isdir_filter)
qed

lemma rmtree_quiet_removes:
  "(\<And>q. path_under p q \<Longrightarrow> can_delete e q) \<Longrightarrow> \<not> isdir (rmtree_quiet e f p) p"
  by (simp add: rmtree_quiet_def rmtree_under not_isdir_filter_walk)

lemma cleanup_removes_task_dir:
  assumes "\<And>q. path_under (t_dir t) q \<Longrightarrow> can_delete e q"
  shows "\<not> isdir (cleanup self e t f) (t_dir t)"
proof -
  let ?f1 = "if isdir f (t_dir t) then rmtree_quiet e f (t_dir t) else f"
  have "\<not> isdir ?f1 (t_dir t)" using rmtree_quiet_removes [OF assms] by simp
  then show ?thesis by (simp add: cleanup_def Let_def rmtree_quiet_shrinks)
qed

lemma cleanup_removes_workdir:
  assumes "\<And>q. path_under (w_workdir self) q \<Longrightarrow> can_delete e q" "t_done t"
  shows "\<not> isdir (cleanup self e t f) (w_workdir self)"
  using assms(2) rmtree_quiet_removes [OF assms(1)] by (simp add: cleanup_def Let_def)

lemma cleanup_keeps_undeletable:
  "\<not> can_delete e D \<Longrightarrow> isdir (cleanup self e t f) D = isdir f D"
  by (simp add: cleanup_def Let_def rmtree_quiet_keeps)

end
